theory Spec2Isabelle
  imports Main "HOL-Library.Char_ord" "HOL-Library.List_Lexorder" "HOL-Library.AList"
begin

section \<open>Python values\<close>

text \<open>
  The child references stored under the keys \<open>sous_sections\<close> and \<open>articles\<close> of a
  section's metadata are JSON objects whose values are strings or null
  (\<open>lien.get(...)\<close> in the extractor). A Python value of that kind is \<open>None\<close> or a
  \<open>str\<close>; a reference is a dictionary, kept as an association list.
\<close>

type_synonym pyval = "string option"

type_synonym ref = "(string \<times> pyval) list"

text \<open>
  The exceptions that leave the functions below: \<open>KeyError\<close> of \<open>d[k]\<close>, and
  \<open>psycopg.DataError\<close> of a statement whose values the database does not take.
\<close>

datatype py_error = KeyError string | DataError

text \<open>\<open>d.get(k)\<close>, \<open>d.get(k, default)\<close> and \<open>d[k]\<close>.\<close>

definition dict_get :: "ref \<Rightarrow> string \<Rightarrow> pyval" where
  "dict_get d k = (case map_of d k of None \<Rightarrow> None | Some v \<Rightarrow> v)"

definition dict_get_default :: "ref \<Rightarrow> string \<Rightarrow> pyval \<Rightarrow> pyval" where
  "dict_get_default d k dflt = (case map_of d k of None \<Rightarrow> dflt | Some v \<Rightarrow> v)"

definition dict_item :: "ref \<Rightarrow> string \<Rightarrow> py_error + pyval" where
  "dict_item d k = (case map_of d k of None \<Rightarrow> Inl (KeyError k) | Some v \<Rightarrow> Inr v)"

text \<open>Truth value of \<open>None\<close> or a string, and of \<open>None\<close> or a list.\<close>

definition truthy :: "pyval \<Rightarrow> bool" where
  "truthy v = (case v of None \<Rightarrow> False | Some s \<Rightarrow> s \<noteq> [])"

definition list_truthy :: "'a list option \<Rightarrow> bool" where
  "list_truthy v = (case v of None \<Rightarrow> False | Some xs \<Rightarrow> xs \<noteq> [])"

definition the_list :: "'a list option \<Rightarrow> 'a list" where
  "the_list v = (case v of None \<Rightarrow> [] | Some xs \<Rightarrow> xs)"

text \<open>\<open>v or default\<close> for a string \<open>default\<close>.\<close>

definition py_or :: "pyval \<Rightarrow> string \<Rightarrow> string" where
  "py_or v dflt = (case v of None \<Rightarrow> dflt | Some s \<Rightarrow> if s = [] then dflt else s)"

text \<open>\<open>d[k] = v\<close> and \<open>d.update(e)\<close> on a dictionary kept in insertion order.\<close>

definition dict_set :: "('k \<times> 'v) list \<Rightarrow> 'k \<Rightarrow> 'v \<Rightarrow> ('k \<times> 'v) list" where
  "dict_set d k v = AList.update k v d"

definition dict_update :: "('k \<times> 'v) list \<Rightarrow> ('k \<times> 'v) list \<Rightarrow> ('k \<times> 'v) list" where
  "dict_update d e = fold (\<lambda>(k, v) acc. dict_set acc k v) e d"

section \<open>Python strings and bytes\<close>

text \<open>
  A Python \<open>str\<close> that names something (a source, a path inside the archive, a token,
  an id) is a \<open>string\<close>: its characters are the code points 0 to 255. On these, the
  regular expression class \<open>\d\<close> is exactly \<open>0-9\<close>. \<open>bytes\<close> are a \<open>char list\<close> as well.
\<close>

definition is_digit :: "char \<Rightarrow> bool" where
  "is_digit c \<longleftrightarrow> c \<in> set ''0123456789''"

definition is_upper_az :: "char \<Rightarrow> bool" where
  "is_upper_az c \<longleftrightarrow> c \<in> set ''ABCDEFGHIJKLMNOPQRSTUVWXYZ''"

text \<open>\<open>s.startswith(p)\<close>, \<open>s.endswith(p)\<close> and \<open>p in s\<close>.\<close>

definition startswith :: "string \<Rightarrow> string \<Rightarrow> bool" where
  "startswith s p \<longleftrightarrow> take (length p) s = p"

definition endswith :: "string \<Rightarrow> string \<Rightarrow> bool" where
  "endswith s p \<longleftrightarrow> length p \<le> length s \<and> drop (length s - length p) s = p"

fun contains :: "string \<Rightarrow> string \<Rightarrow> bool" where
  "contains [] p = (p = [])"
| "contains (c # cs) p = (startswith (c # cs) p \<or> contains cs p)"

text \<open>\<open>s.lower()\<close>: A-Z and the capital letters of Latin-1 move up by 32.\<close>

definition lower_char :: "char \<Rightarrow> char" where
  "lower_char c =
     (let n = (of_char c :: nat)
      in if (65 \<le> n \<and> n \<le> 90) \<or> (192 \<le> n \<and> n \<le> 222 \<and> n \<noteq> 215)
         then char_of (n + 32) else c)"

definition lower :: "string \<Rightarrow> string" where
  "lower s = map lower_char s"

text \<open>\<open>s.splitlines()\<close> and \<open>s.strip()\<close> on the code points 0 to 255.\<close>

definition is_linebreak :: "char \<Rightarrow> bool" where
  "is_linebreak c \<longleftrightarrow> (of_char c :: nat) \<in> {0x0A, 0x0B, 0x0C, 0x0D, 0x1C, 0x1D, 0x1E, 0x85}"

definition is_space :: "char \<Rightarrow> bool" where
  "is_space c \<longleftrightarrow>
     (of_char c :: nat) \<in> {0x09, 0x0A, 0x0B, 0x0C, 0x0D, 0x1C, 0x1D, 0x1E, 0x1F, 0x20, 0x85, 0xA0}"

fun splitlines_from :: "string \<Rightarrow> string \<Rightarrow> string list" where
  "splitlines_from [] line = (if line = [] then [] else [line])"
| "splitlines_from (c # cs) line =
     (if is_linebreak c then
        (case cs of
           d # ds \<Rightarrow>
             if c = CHR 0x0D \<and> d = CHR 0x0A then line # splitlines_from ds []
             else line # splitlines_from cs []
         | [] \<Rightarrow> line # splitlines_from cs [])
      else splitlines_from cs (line @ [c]))"

definition splitlines :: "string \<Rightarrow> string list" where
  "splitlines s = splitlines_from s []"

definition strip :: "string \<Rightarrow> string" where
  "strip s = rev (dropWhile is_space (rev (dropWhile is_space s)))"

text \<open>Decoded text (\<open>content_xml\<close>, \<open>content_text\<close>) is a list of code points.\<close>

type_synonym unicode = "nat list"

text \<open>
  UTF-8: the byte values of one code point, and \<open>s.encode("utf-8")\<close> on text and on
  a \<open>str\<close>.
\<close>

definition utf8_bytes :: "nat \<Rightarrow> nat list" where
  "utf8_bytes cp =
     (if cp < 0x80 then [cp]
      else if cp < 0x800 then [0xC0 + cp div 64, 0x80 + cp mod 64]
      else if cp < 0x10000 then
        [0xE0 + cp div 4096, 0x80 + cp div 64 mod 64, 0x80 + cp mod 64]
      else
        [0xF0 + cp div 262144, 0x80 + cp div 4096 mod 64,
         0x80 + cp div 64 mod 64, 0x80 + cp mod 64])"

definition utf8_encode :: "unicode \<Rightarrow> char list" where
  "utf8_encode s = map char_of (concat (map utf8_bytes s))"

definition str_encode :: "string \<Rightarrow> char list" where
  "str_encode s = utf8_encode (map of_char s)"

text \<open>
  \<open>data.decode("utf-8", errors="replace")\<close> on the byte values: an invalid start byte, or
  a sequence cut short by an invalid continuation byte or by the end of the data, becomes
  one U+FFFD, and decoding goes on at the offending byte.
\<close>

definition is_continuation :: "nat \<Rightarrow> bool" where
  "is_continuation b \<longleftrightarrow> 0x80 \<le> b \<and> b < 0xC0"

fun utf8_decode_replace :: "nat list \<Rightarrow> unicode" where
  "utf8_decode_replace [] = []"
| "utf8_decode_replace (b0 # rest) =
     (if b0 < 0x80 then b0 # utf8_decode_replace rest
      else if b0 < 0xC2 then 0xFFFD # utf8_decode_replace rest
      else if b0 < 0xE0 then
        (case rest of
           [] \<Rightarrow> [0xFFFD]
         | b1 # r1 \<Rightarrow>
             if is_continuation b1
             then ((b0 - 0xC0) * 64 + (b1 - 0x80)) # utf8_decode_replace r1
             else 0xFFFD # utf8_decode_replace rest)
      else if b0 < 0xF0 then
        (case rest of
           [] \<Rightarrow> [0xFFFD]
         | b1 # r1 \<Rightarrow>
             if \<not> is_continuation b1 \<or> (if b1 < 0xA0 then b0 = 0xE0 else b0 = 0xED)
             then 0xFFFD # utf8_decode_replace rest
             else
               (case r1 of
                  [] \<Rightarrow> [0xFFFD]
                | b2 # r2 \<Rightarrow>
                    if is_continuation b2
                    then ((b0 - 0xE0) * 4096 + (b1 - 0x80) * 64 + (b2 - 0x80))
                           # utf8_decode_replace r2
                    else 0xFFFD # utf8_decode_replace r1))
      else if b0 < 0xF5 then
        (case rest of
           [] \<Rightarrow> [0xFFFD]
         | b1 # r1 \<Rightarrow>
             if \<not> is_continuation b1 \<or> (if b1 < 0x90 then b0 = 0xF0 else b0 = 0xF4)
             then 0xFFFD # utf8_decode_replace rest
             else
               (case r1 of
                  [] \<Rightarrow> [0xFFFD]
                | b2 # r2 \<Rightarrow>
                    if \<not> is_continuation b2 then 0xFFFD # utf8_decode_replace r1
                    else
                      (case r2 of
                         [] \<Rightarrow> [0xFFFD]
                       | b3 # r3 \<Rightarrow>
                           if is_continuation b3
                           then ((b0 - 0xF0) * 262144 + (b1 - 0x80) * 4096
                                   + (b2 - 0x80) * 64 + (b3 - 0x80))
                                  # utf8_decode_replace r3
                           else 0xFFFD # utf8_decode_replace r2)))
      else 0xFFFD # utf8_decode_replace rest)"

section \<open>The documents table\<close>

text \<open>
  The metadata object of a document, with the keys the extractor writes and the types it
  writes them with. A key that is absent or holds JSON null is \<open>None\<close>: neither
  \<open>meta.get(k)\<close> in Python nor \<open>meta->>k\<close>, \<open>meta->k\<close> or \<open>COALESCE\<close> in the
  queries tells the two apart.
\<close>

record meta =
  m_root_tag :: pyval
  m_id :: pyval
  m_cid :: pyval
  m_name :: pyval
  m_nature :: pyval
  m_titre :: pyval
  m_etat :: pyval
  m_date_debut :: pyval
  m_date_fin :: pyval
  m_parent :: pyval
  m_nb_sections :: "int option"
  m_nb_articles :: "int option"
  m_sous_sections :: "ref list option"
  m_articles :: "ref list option"
  m_num :: pyval
  m_origine :: pyval
  m_has_links :: "bool option"
  m_link_types :: "(string \<times> int) list option"
  m_parse_error :: "bool option"
  m_error :: pyval
  m_source :: pyval

text \<open>The empty dictionary \<open>{}\<close>.\<close>

definition empty_meta :: meta where
  "empty_meta = \<lparr>m_root_tag = None, m_id = None, m_cid = None, m_name = None, m_nature = None,
     m_titre = None, m_etat = None, m_date_debut = None, m_date_fin = None, m_parent = None,
     m_nb_sections = None, m_nb_articles = None, m_sous_sections = None, m_articles = None,
     m_num = None, m_origine = None, m_has_links = None, m_link_types = None,
     m_parse_error = None, m_error = None, m_source = None\<rparr>"

text \<open>
  A row of \<open>documents\<close>:
  \<open>(id, source, doctype, path, updated_at, sha256, meta, content_xml, content_text)\<close>.
  The table is the list of its rows.
\<close>

record document =
  d_id :: string
  d_source :: string
  d_doctype :: string
  d_path :: string
  d_updated_at :: string
  d_sha256 :: string
  d_meta :: meta
  d_content_xml :: unicode
  d_content_text :: unicode

section \<open>\<open>ingest_legifrance_pg.py\<close>: document ids\<close>

text \<open>\<open>[A-Z]{k}\d{12}\<close> at the start of \<open>r\<close>.\<close>

definition letters_digits_at :: "nat \<Rightarrow> string \<Rightarrow> bool" where
  "letters_digits_at k r \<longleftrightarrow>
     length (take k r) = k \<and> list_all is_upper_az (take k r)
     \<and> length (take 12 (drop k r)) = 12 \<and> list_all is_digit (take 12 (drop k r))"

text \<open>
  A match of \<open>LEGI[A-Z]{lo,hi}\d{12}\<close> at the start of \<open>s\<close>: the letters are matched
  greedily, the longest run first.
\<close>

definition legi_id_match_at :: "nat \<Rightarrow> nat \<Rightarrow> string \<Rightarrow> string option" where
  "legi_id_match_at lo hi s =
     (if take 4 s = ''LEGI'' then
        (case List.find (\<lambda>k. letters_digits_at k (drop 4 s)) (rev [lo..<Suc hi]) of
           None \<Rightarrow> None
         | Some k \<Rightarrow> Some (take (4 + k + 12) s))
      else None)"

text \<open>\<open>re.search\<close> of that pattern: group 1 of the leftmost match.\<close>

fun legi_id_search :: "nat \<Rightarrow> nat \<Rightarrow> string \<Rightarrow> string option" where
  "legi_id_search lo hi [] = None"
| "legi_id_search lo hi (c # cs) =
     (case legi_id_match_at lo hi (c # cs) of
        Some m \<Rightarrow> Some m
      | None \<Rightarrow> legi_id_search lo hi cs)"

text \<open>\<open>re.sub(r'^\d{8}-\d{6}/', '', path_in_tar)\<close>\<close>

definition is_timestamp_segment :: "string \<Rightarrow> bool" where
  "is_timestamp_segment t \<longleftrightarrow>
     length t = 16 \<and> list_all is_digit (take 8 t) \<and> take 1 (drop 8 t) = ''-''
     \<and> list_all is_digit (take 6 (drop 9 t)) \<and> drop 15 t = ''/''"

definition strip_timestamp :: "string \<Rightarrow> string" where
  "strip_timestamp path_in_tar =
     (if is_timestamp_segment (take 16 path_in_tar) then drop 16 path_in_tar else path_in_tar)"

text \<open>
  \<open>_doc_id\<close>. The hash \<open>hashlib.sha256(b).hexdigest()\<close> is a parameter, \<open>sha256_hex\<close>.
\<close>

definition doc_id :: "(char list \<Rightarrow> string) \<Rightarrow> string \<Rightarrow> string \<Rightarrow> meta option \<Rightarrow> string" where
  "doc_id sha256_hex source path_in_tar meta =
     (case (case meta of None \<Rightarrow> None
            | Some m \<Rightarrow> if truthy (m_id m) then m_id m else None) of
        Some i \<Rightarrow> i
      | None \<Rightarrow>
          (case legi_id_search 3 4 path_in_tar of
             Some legi_id \<Rightarrow> legi_id
           | None \<Rightarrow> sha256_hex (str_encode (source @ '':'' @ strip_timestamp path_in_tar))))"

section \<open>\<open>ingest_legifrance_pg.py\<close>: upsert and delete\<close>

text \<open>
  One \<open>INSERT ... ON CONFLICT (id) DO UPDATE SET ...\<close>: the row with that id, if any, gets
  the eight other columns of the new row; otherwise the new row is added.
\<close>

definition upsert_row :: "document list \<Rightarrow> document \<Rightarrow> document list" where
  "upsert_row documents row =
     (if \<exists>d \<in> set documents. d_id d = d_id row then
        map (\<lambda>d. if d_id d = d_id row
                  then d\<lparr>d_source := d_source row, d_doctype := d_doctype row,
                         d_path := d_path row, d_updated_at := d_updated_at row,
                         d_sha256 := d_sha256 row, d_meta := d_meta row,
                         d_content_xml := d_content_xml row,
                         d_content_text := d_content_text row\<rparr>
                  else d) documents
      else documents @ [row])"

text \<open>
  A \<open>str\<close> bound to \<open>%s\<close> must not hold U+0000: psycopg raises \<open>DataError\<close> when it
  dumps the parameter ("PostgreSQL text fields cannot contain NUL (0x00) bytes"), for a
  \<open>str\<close> inside a list as well. The metadata is bound as \<open>json.dumps(meta)\<close> and cast
  by \<open>%s::jsonb\<close>: a key or a string of it that holds U+0000 is written \<open>\u0000\<close>, which
  \<open>jsonb\<close> does not take, a \<open>DataError\<close> again. The keys of \<open>meta\<close> itself are
  constants of the extractor.
\<close>

definition has_nul :: "string \<Rightarrow> bool" where
  "has_nul s \<longleftrightarrow> CHR 0x00 \<in> set s"

definition pyval_has_nul :: "pyval \<Rightarrow> bool" where
  "pyval_has_nul v = (case v of None \<Rightarrow> False | Some s \<Rightarrow> has_nul s)"

definition refs_have_nul :: "ref list option \<Rightarrow> bool" where
  "refs_have_nul v \<longleftrightarrow>
     (\<exists>r \<in> set (the_list v). \<exists>kv \<in> set r. has_nul (fst kv) \<or> pyval_has_nul (snd kv))"

definition meta_has_nul :: "meta \<Rightarrow> bool" where
  "meta_has_nul m \<longleftrightarrow>
     (\<exists>v \<in> set [m_root_tag m, m_id m, m_cid m, m_name m, m_nature m, m_titre m, m_etat m,
                   m_date_debut m, m_date_fin m, m_parent m, m_num m, m_origine m, m_error m,
                   m_source m]. pyval_has_nul v)
     \<or> refs_have_nul (m_sous_sections m) \<or> refs_have_nul (m_articles m)
     \<or> (\<exists>kn \<in> set (the_list (m_link_types m)). has_nul (fst kn))"

text \<open>The rows of the \<open>INSERT\<close> that raise \<open>DataError\<close>.\<close>

definition row_refused :: "document \<Rightarrow> bool" where
  "row_refused row \<longleftrightarrow>
     has_nul (d_id row) \<or> has_nul (d_source row) \<or> has_nul (d_doctype row)
     \<or> has_nul (d_path row) \<or> has_nul (d_updated_at row) \<or> has_nul (d_sha256 row)
     \<or> meta_has_nul (d_meta row)
     \<or> 0 \<in> set (d_content_xml row) \<or> 0 \<in> set (d_content_text row)"

text \<open>
  \<open>cur.executemany(sql, rows)\<close> runs the statement once per row, in order, and raises at
  the first row that is refused.
\<close>

fun executemany :: "document list \<Rightarrow> document list \<Rightarrow> py_error + document list" where
  "executemany documents [] = Inr documents"
| "executemany documents (row # rows) =
     (if row_refused row then Inl DataError
      else executemany (upsert_row documents row) rows)"

text \<open>
  \<open>_upsert_documents\<close>. It commits nothing: when it raises, the rows it has written are
  undone with the transaction.
\<close>

definition upsert_documents :: "document list \<Rightarrow> document list \<Rightarrow> py_error + document list" where
  "upsert_documents documents rows =
     (if rows = [] then Inr documents else executemany documents rows)"

text \<open>A \<open>DELETE ... WHERE\<close>: the remaining table and \<open>cur.rowcount\<close>.\<close>

definition delete_where :: "(document \<Rightarrow> bool) \<Rightarrow> document list \<Rightarrow> document list \<times> nat" where
  "delete_where cond documents =
     (filter (\<lambda>d. \<not> cond d) documents, length (filter cond documents))"

text \<open>The first loop of \<open>_delete_by_tokens\<close>, over \<open>tokens[:5000]\<close>.\<close>

fun split_tokens :: "string list \<Rightarrow> string list \<Rightarrow> string list \<Rightarrow> string list \<times> string list" where
  "split_tokens [] ids_to_delete tokens_without_id = (ids_to_delete, tokens_without_id)"
| "split_tokens (token # rest) ids_to_delete tokens_without_id =
     (case legi_id_search 3 5 token of
        Some legi_id \<Rightarrow> split_tokens rest (ids_to_delete @ [legi_id]) tokens_without_id
      | None \<Rightarrow> split_tokens rest ids_to_delete (tokens_without_id @ [token]))"

text \<open>
  The loop \<open>for i in range(0, len(ids_to_delete), batch_size)\<close> with
  \<open>DELETE ... WHERE source = %s AND meta->>'id' = ANY(%s)\<close>; it returns the table, the
  deleted count and the batches sent.
\<close>

function delete_id_batches ::
    "document list \<Rightarrow> string \<Rightarrow> string list \<Rightarrow> nat \<Rightarrow> nat \<Rightarrow> string list list
     \<Rightarrow> document list \<times> nat \<times> string list list" where
  "delete_id_batches documents source ids_to_delete i total_deleted sent =
     (if i < length ids_to_delete then
        (let batch = take 1000 (drop i ids_to_delete);
             (documents', rowcount) =
               delete_where (\<lambda>d. d_source d = source
                   \<and> (case m_id (d_meta d) of None \<Rightarrow> False | Some x \<Rightarrow> x \<in> set batch))
                 documents
         in delete_id_batches documents' source ids_to_delete (i + 1000)
              (total_deleted + rowcount) (sent @ [batch]))
      else (documents, total_deleted, sent))"
  by pat_completeness auto

termination
  by (relation "measure (\<lambda>(documents, source, ids_to_delete, i, total_deleted, sent).
        length ids_to_delete - i)") auto

declare delete_id_batches.simps [simp del]

text \<open>
  \<open>_delete_by_tokens\<close>. The operators of the database are parameters: \<open>ilike text pattern\<close>
  for \<open>text ILIKE pattern\<close> and \<open>jsonb_text\<close> for \<open>meta::text\<close>.
\<close>

definition delete_by_tokens ::
    "(string \<Rightarrow> string \<Rightarrow> bool) \<Rightarrow> (meta \<Rightarrow> string) \<Rightarrow> document list \<Rightarrow> string list \<Rightarrow> string
     \<Rightarrow> document list \<times> nat" where
  "delete_by_tokens ilike jsonb_text documents tokens source =
     (if tokens = [] then (documents, 0)
      else
        (let (ids_to_delete, tokens_without_id) = split_tokens (take 5000 tokens) [] [];
             (documents1, deleted1) =
               (if ids_to_delete \<noteq> [] then
                  (let (ds, n, sent) = delete_id_batches documents source ids_to_delete 0 0 []
                   in (ds, n))
                else (documents, 0));
             (documents2, deleted2) =
               (if tokens_without_id \<noteq> [] then
                  (let patterns = map (\<lambda>t. ''%'' @ t @ ''%'') tokens_without_id
                   in delete_where (\<lambda>d. d_source d = source
                        \<and> ((\<exists>p \<in> set patterns. ilike (d_path d) p)
                           \<or> (\<exists>p \<in> set patterns. ilike (jsonb_text (d_meta d)) p)))
                        documents1)
                else (documents1, 0))
         in (documents2, deleted1 + deleted2)))"

text \<open>
  The parameters of the two \<open>DELETE\<close> statements are \<open>source\<close>, the batch of ids and the
  patterns. \<open>delete_refused\<close> tells when \<open>_delete_by_tokens\<close> raises \<open>DataError\<close> on
  one of them; when it does not, the statements have the effect given by
  \<open>delete_by_tokens\<close>.
\<close>

definition delete_refused :: "string list \<Rightarrow> string \<Rightarrow> bool" where
  "delete_refused tokens source \<longleftrightarrow>
     tokens \<noteq> [] \<and>
     (let (ids_to_delete, tokens_without_id) = split_tokens (take 5000 tokens) [] []
      in (ids_to_delete \<noteq> [] \<and> (has_nul source \<or> (\<exists>i \<in> set ids_to_delete. has_nul i)))
         \<or> (tokens_without_id \<noteq> []
             \<and> (has_nul source \<or> (\<exists>t \<in> set tokens_without_id. has_nul (''%'' @ t @ ''%'')))))"

section \<open>\<open>ingest_legifrance_pg.py\<close>: reading an archive\<close>

text \<open>
  What the script takes from libraries and from the database:
  \<open>env_sha256\<close> is \<open>hashlib.sha256(b).hexdigest()\<close>;
  \<open>env_xml\<close> is the \<open>try\<close> block of \<open>_extract_text_and_meta_from_xml\<close>, the parse by
  \<open>lxml\<close> and the navigation of the tree, \<open>Inl (str e)\<close> when it raises;
  \<open>env_decode_ignore\<close> is \<open>data.decode("utf-8", errors="ignore")\<close>;
  \<open>env_upper\<close> is \<open>str.upper\<close>;
  \<open>env_ilike\<close> and \<open>env_jsonb_text\<close> are \<open>ILIKE\<close> and \<open>meta::text\<close>.
\<close>

record env =
  env_sha256 :: "char list \<Rightarrow> string"
  env_xml :: "char list \<Rightarrow> string \<Rightarrow> string + unicode \<times> meta"
  env_decode_ignore :: "char list \<Rightarrow> string"
  env_upper :: "string \<Rightarrow> string"
  env_ilike :: "string \<Rightarrow> string \<Rightarrow> bool"
  env_jsonb_text :: "meta \<Rightarrow> string"

text \<open>
  \<open>_extract_text_and_meta_from_xml\<close>: the result of the \<open>try\<close> block, or on any exception
  \<open>("", {"parse_error": True, "error": str(e)})\<close>.
\<close>

definition extract_text_and_meta_from_xml :: "env \<Rightarrow> char list \<Rightarrow> string \<Rightarrow> unicode \<times> meta" where
  "extract_text_and_meta_from_xml env xml_bytes path_in_tar =
     (case env_xml env xml_bytes path_in_tar of
        Inr (text, meta) \<Rightarrow> (text, meta)
      | Inl e \<Rightarrow> ([], empty_meta\<lparr>m_parse_error := Some True, m_error := Some e\<rparr>))"

text \<open>\<open>_guess_doctype\<close>\<close>

definition guess_doctype :: "string \<Rightarrow> string" where
  "guess_doctype path_in_tar =
     (let p = lower path_in_tar
      in if endswith p ''.xml'' then
           (if contains p ''/article'' \<or> contains p ''article'' then ''article''
            else if contains p ''/texte'' \<or> contains p ''texte'' then ''texte''
            else if contains p ''/section_ta'' \<or> contains p ''section_ta'' then ''section''
            else ''xml'')
         else if endswith p ''.dat'' then
           (if contains p ''liste_suppression'' then ''suppression_list'' else ''dat'')
         else ''blob'')"

text \<open>\<open>_parse_suppression_list\<close>\<close>

definition parse_suppression_list :: "env \<Rightarrow> char list \<Rightarrow> string list" where
  "parse_suppression_list env data =
     filter (\<lambda>s. \<not> (s = [] \<or> startswith s ''#''))
       (map strip (splitlines (env_decode_ignore env data)))"

text \<open>
  A member of the archive: \<open>member.name\<close>, \<open>member.isfile()\<close> and what
  \<open>tar.extractfile(member)\<close> gives, \<open>None\<close> or the bytes that \<open>f.read()\<close> returns.
\<close>

record tar_member =
  tm_name :: string
  tm_isfile :: bool
  tm_extractfile :: "char list option"

text \<open>
  The connection and the local variables of \<open>ingest_archive\<close>. Every statement that
  succeeds is followed by \<open>conn.commit()\<close>, so \<open>st_conn\<close> is the table as committed.
\<close>

record ingest_state =
  st_conn :: "document list"
  st_pending :: "document list"
  st_files_seen :: nat
  st_do_inserts :: nat
  st_do_deletes :: nat

text \<open>
  The tuple appended to \<open>pending\<close> for a content entry. The metadata is stored as the
  JSON of the dictionary, the content as the decoded bytes.
\<close>

definition content_row ::
    "env \<Rightarrow> string \<Rightarrow> string \<Rightarrow> string \<Rightarrow> string \<Rightarrow> char list \<Rightarrow> document" where
  "content_row env source path_in_tar doctype updated_at data =
     (let (text, meta0) = extract_text_and_meta_from_xml env data path_in_tar;
          meta = meta0\<lparr>m_source := Some source\<rparr>
      in \<lparr>d_id = doc_id (env_sha256 env) source path_in_tar (Some meta),
          d_source = source, d_doctype = doctype, d_path = path_in_tar,
          d_updated_at = updated_at, d_sha256 = env_sha256 env data, d_meta = meta,
          d_content_xml = utf8_decode_replace (map of_char data), d_content_text = text\<rparr>)"

text \<open>
  The body of the loop \<open>for member in tar\<close>, with \<open>source\<close> the source in upper case.
  An exception of \<open>_delete_by_tokens\<close> or \<open>_upsert_documents\<close> is not caught.
\<close>

definition ingest_member ::
    "env \<Rightarrow> string \<Rightarrow> string \<Rightarrow> nat \<Rightarrow> ingest_state \<Rightarrow> tar_member
     \<Rightarrow> py_error + ingest_state" where
  "ingest_member env source updated_at batch_size st member =
     (if \<not> tm_isfile member then Inr st
      else
        (let st1 = st\<lparr>st_files_seen := st_files_seen st + 1\<rparr>
         in case tm_extractfile member of
              None \<Rightarrow> Inr st1
            | Some data \<Rightarrow>
                (let path_in_tar = tm_name member;
                     doctype = guess_doctype path_in_tar
                 in if doctype = ''suppression_list'' then
                      (let tokens = parse_suppression_list env data
                       in if delete_refused tokens source then Inl DataError
                          else
                            (let (conn, deleted) =
                                   delete_by_tokens (env_ilike env) (env_jsonb_text env)
                                     (st_conn st1) tokens source
                             in Inr (st1\<lparr>st_conn := conn,
                                        st_do_deletes := st_do_deletes st1 + deleted\<rparr>)))
                    else if doctype \<in> {''article'', ''texte'', ''section'', ''xml''}
                            \<and> endswith (lower path_in_tar) ''.xml'' then
                      (let pending = st_pending st1
                                       @ [content_row env source path_in_tar doctype updated_at data]
                       in if length pending \<ge> batch_size then
                            (case upsert_documents (st_conn st1) pending of
                               Inl e \<Rightarrow> Inl e
                             | Inr conn \<Rightarrow>
                                 Inr (st1\<lparr>st_conn := conn,
                                         st_do_inserts := st_do_inserts st1 + length pending,
                                         st_pending := []\<rparr>))
                          else Inr (st1\<lparr>st_pending := pending\<rparr>))
                    else Inr st1)))"

text \<open>
  The loop over the members. An exception leaves \<open>ingest_archive\<close> and \<open>run\<close>, whose
  \<open>with _db_connect() as conn\<close> rolls the open transaction back: the error comes with the
  table as last committed.
\<close>

fun ingest_members ::
    "env \<Rightarrow> string \<Rightarrow> string \<Rightarrow> nat \<Rightarrow> ingest_state \<Rightarrow> tar_member list
     \<Rightarrow> py_error \<times> document list + ingest_state" where
  "ingest_members env source updated_at batch_size st [] = Inr st"
| "ingest_members env source updated_at batch_size st (member # rest) =
     (case ingest_member env source updated_at batch_size st member of
        Inl e \<Rightarrow> Inl (e, st_conn st)
      | Inr st' \<Rightarrow> ingest_members env source updated_at batch_size st' rest)"

text \<open>
  \<open>ingest_archive\<close>: the loop over the members, then the last flush; it returns the
  table and the counts \<open>files_seen\<close>, \<open>upserts\<close>, \<open>deletes\<close>.
\<close>

definition ingest_archive ::
    "env \<Rightarrow> document list \<Rightarrow> string \<Rightarrow> tar_member list \<Rightarrow> string \<Rightarrow> nat
     \<Rightarrow> py_error \<times> document list + document list \<times> nat \<times> nat \<times> nat" where
  "ingest_archive env conn source0 members updated_at batch_size =
     (let source = env_upper env source0
      in case ingest_members env source updated_at batch_size
                \<lparr>st_conn = conn, st_pending = [], st_files_seen = 0, st_do_inserts = 0,
                 st_do_deletes = 0\<rparr> members of
           Inl err \<Rightarrow> Inl err
         | Inr st \<Rightarrow>
             (if st_pending st \<noteq> [] then
                (case upsert_documents (st_conn st) (st_pending st) of
                   Inl e \<Rightarrow> Inl (e, st_conn st)
                 | Inr conn' \<Rightarrow>
                     Inr (conn', st_files_seen st,
                          st_do_inserts st + length (st_pending st), st_do_deletes st))
              else Inr (st_conn st, st_files_seen st, st_do_inserts st, st_do_deletes st)))"

section \<open>\<open>precalculate_all_trees.py\<close>: assembling the tree in memory\<close>

text \<open>
  One loaded section, the dictionary built from a row of the section queries:
  keys \<open>id\<close>, \<open>titre\<close>, \<open>sous_sections\<close>, \<open>articles\<close>, \<open>nb_sections\<close>,
  \<open>nb_articles\<close>.
\<close>

record section_data =
  sec_id :: pyval
  sec_titre :: pyval
  sous_sections :: "ref list option"
  articles :: "ref list option"
  nb_sections :: int
  nb_articles :: int

text \<open>An article of the output: keys \<open>id\<close>, \<open>num\<close>, \<open>titre\<close>.\<close>

record article_out =
  a_id :: pyval
  a_num :: pyval
  a_titre :: pyval

text \<open>
  A node of the output. The keys \<open>children\<close> and \<open>articles\<close> are set only when their
  list is not empty, so an empty list here stands for the absent key.
\<close>

datatype node = Node (n_id: pyval) (n_titre: pyval) (n_nb_sections: int) (n_nb_articles: int)
  (n_children: "node list") (n_articles: "article_out list")

text \<open>
  The filter of both loops:
  \<open>x.get('fin', '2999-01-01') == '2999-01-01' or x.get('etat') == 'VIGUEUR'\<close>.
\<close>

definition en_vigueur :: "ref \<Rightarrow> bool" where
  "en_vigueur x \<longleftrightarrow>
     dict_get_default x ''fin'' (Some ''2999-01-01'') = Some ''2999-01-01''
     \<or> dict_get x ''etat'' = Some ''VIGUEUR''"

definition article_of :: "ref \<Rightarrow> article_out" where
  "article_of art =
     \<lparr>a_id = dict_get art ''id'', a_num = dict_get art ''num'',
      a_titre = dict_get_default art ''titre'' (Some [])\<rparr>"

text \<open>
  The article loop: append each article in force, \<open>break\<close> once 500 are collected.
\<close>

fun articles_loop :: "ref list \<Rightarrow> article_out list \<Rightarrow> article_out list" where
  "articles_loop [] articles_filtered = articles_filtered"
| "articles_loop (art # rest) articles_filtered =
     (if en_vigueur art then
        (let articles_filtered' = articles_filtered @ [article_of art]
         in if length articles_filtered' \<ge> 500 then articles_filtered'
            else articles_loop rest articles_filtered')
      else articles_loop rest articles_filtered)"

text \<open>
  \<open>build_node_from_memory\<close> with the loop over the child references as a second
  function. \<open>ss["id"]\<close> raises \<open>KeyError\<close> when the key is missing; the first error
  ends the build.
\<close>

function build_node_from_memory ::
    "(pyval \<times> section_data) list \<Rightarrow> pyval \<Rightarrow> nat \<Rightarrow> nat \<Rightarrow> py_error + node option"
  and children_loop ::
    "(pyval \<times> section_data) list \<Rightarrow> ref list \<Rightarrow> nat \<Rightarrow> nat \<Rightarrow> py_error + node list"
where
  "build_node_from_memory all_sections section_id current_depth max_depth =
     (if current_depth > max_depth then Inr None
      else case map_of all_sections section_id of
        None \<Rightarrow> Inr None
      | Some sec \<Rightarrow>
          (case (if current_depth < max_depth \<and> list_truthy (sous_sections sec)
                 then children_loop all_sections (the_list (sous_sections sec))
                        (current_depth + 1) max_depth
                 else Inr []) of
             Inl e \<Rightarrow> Inl e
           | Inr children \<Rightarrow>
               Inr (Some (Node (sec_id sec) (sec_titre sec)
                     (nb_sections sec) (nb_articles sec) children
                     (if list_truthy (articles sec)
                      then articles_loop (the_list (articles sec)) [] else [])))))"
| "children_loop all_sections [] child_depth max_depth = Inr []"
| "children_loop all_sections (ss # rest) child_depth max_depth =
     (if en_vigueur ss then
        (case dict_item ss ''id'' of
           Inl e \<Rightarrow> Inl e
         | Inr child_id \<Rightarrow>
             (case build_node_from_memory all_sections child_id child_depth max_depth of
                Inl e \<Rightarrow> Inl e
              | Inr child \<Rightarrow>
                  (case children_loop all_sections rest child_depth max_depth of
                     Inl e \<Rightarrow> Inl e
                   | Inr children \<Rightarrow>
                       Inr (case child of None \<Rightarrow> children | Some c \<Rightarrow> c # children))))
      else children_loop all_sections rest child_depth max_depth)"
  by pat_completeness auto

termination
  by (relation "measures
        [\<lambda>x. case x of Inl (_, _, d, md) \<Rightarrow> md + 1 - d | Inr (_, _, d, md) \<Rightarrow> md + 1 - d,
         \<lambda>x. case x of Inl _ \<Rightarrow> 0 | Inr (_, xs, _, _) \<Rightarrow> Suc (length xs)]")
     auto

declare build_node_from_memory.simps [simp del]

text \<open>Step 6: one call per root id, at depth 1 with \<open>max_depth=10\<close>.\<close>

fun roots_loop :: "(pyval \<times> section_data) list \<Rightarrow> pyval list \<Rightarrow> py_error + node list" where
  "roots_loop all_sections [] = Inr []"
| "roots_loop all_sections (root_id # rest) =
     (case build_node_from_memory all_sections root_id 1 10 of
        Inl e \<Rightarrow> Inl e
      | Inr nd \<Rightarrow>
          (case roots_loop all_sections rest of
             Inl e \<Rightarrow> Inl e
           | Inr tree \<Rightarrow> Inr (case nd of None \<Rightarrow> tree | Some n \<Rightarrow> n # tree)))"

text \<open>Depth of an output node: 1 for a node without children.\<close>

fun node_depth :: "node \<Rightarrow> nat" where
  "node_depth (Node i t ns na children arts) = Suc (foldr max (map node_depth children) 0)"

section \<open>\<open>precalculate_all_trees.py\<close>: the section queries\<close>

text \<open>
  Both section queries read \<open>documents\<close> with \<open>source = 'LEGI' AND doctype = 'section'\<close>
  and return one row per \<open>meta->>'id'\<close>:
  \<open>SELECT DISTINCT ON (meta->>'id') ... ORDER BY meta->>'id',
  COALESCE(meta->>'date_debut', '1900-01-01') DESC\<close>.
  Text is compared byte by byte (the order of ISO dates); among rows of one id with the
  same date the database may return any, here the first of the table.
\<close>

definition date_key :: "document \<Rightarrow> string" where
  "date_key d = (case m_date_debut (d_meta d) of None \<Rightarrow> ''1900-01-01'' | Some s \<Rightarrow> s)"

fun latest :: "document \<Rightarrow> document list \<Rightarrow> document" where
  "latest best [] = best"
| "latest best (d # ds) = latest (if date_key best < date_key d then d else best) ds"

text \<open>The ids in the order of \<open>ORDER BY meta->>'id'\<close>: ascending, NULL last.\<close>

definition ordered_ids :: "document list \<Rightarrow> pyval list" where
  "ordered_ids rows =
     map Some (sort (remdups (List.map_filter (\<lambda>d. m_id (d_meta d)) rows)))
     @ (if \<exists>d \<in> set rows. m_id (d_meta d) = None then [None] else [])"

definition section_row :: "document \<Rightarrow> section_data" where
  "section_row d =
     \<lparr>sec_id = m_id (d_meta d), sec_titre = m_titre (d_meta d),
      sous_sections = m_sous_sections (d_meta d), articles = m_articles (d_meta d),
      nb_sections = (case m_nb_sections (d_meta d) of None \<Rightarrow> 0 | Some n \<Rightarrow> n),
      nb_articles = (case m_nb_articles (d_meta d) of None \<Rightarrow> 0 | Some n \<Rightarrow> n)\<rparr>"

text \<open>The row returned for one id: the latest of the rows with that id.\<close>

definition pick_latest :: "document list \<Rightarrow> pyval \<Rightarrow> section_data option" where
  "pick_latest rows i =
     (case filter (\<lambda>d. m_id (d_meta d) = i) rows of
        [] \<Rightarrow> None
      | d # ds \<Rightarrow> Some (section_row (latest d ds)))"

definition select_sections :: "(document \<Rightarrow> bool) \<Rightarrow> document list \<Rightarrow> section_data list" where
  "select_sections cond documents =
     (let rows = filter (\<lambda>d. d_source d = ''LEGI'' \<and> d_doctype d = ''section'' \<and> cond d) documents
      in List.map_filter (pick_latest rows) (ordered_ids rows))"

text \<open>\<open>WHERE ... AND meta->>'parent' = %s\<close>\<close>

definition root_query :: "document list \<Rightarrow> string \<Rightarrow> section_data list" where
  "root_query documents code_id =
     select_sections (\<lambda>d. m_parent (d_meta d) = Some code_id) documents"

text \<open>\<open>WHERE ... AND meta->>'id' = ANY(%s)\<close>: a NULL id matches nothing.\<close>

definition wave_query :: "document list \<Rightarrow> pyval set \<Rightarrow> section_data list" where
  "wave_query documents ids =
     select_sections (\<lambda>d. m_id (d_meta d) \<noteq> None \<and> m_id (d_meta d) \<in> ids) documents"

text \<open>
  The code header: \<open>SELECT meta->>'titre', meta->>'nature' ... WHERE source = 'LEGI' AND
  doctype = 'texte' AND meta->>'id' = %s LIMIT 1\<close>, then \<open>fetchone()\<close>.
\<close>

definition header_query :: "document list \<Rightarrow> string \<Rightarrow> (pyval \<times> pyval) option" where
  "header_query documents code_id =
     (case filter (\<lambda>d. d_source d = ''LEGI'' \<and> d_doctype d = ''texte''
                       \<and> m_id (d_meta d) = Some code_id) documents of
        [] \<Rightarrow> None
      | d # _ \<Rightarrow> Some (m_titre (d_meta d), m_nature (d_meta d)))"

text \<open>The queries a build sends, in order.\<close>

datatype query = HeaderQuery string | RootQuery string | WaveQuery "pyval set"

fun is_section_fetch :: "query \<Rightarrow> bool" where
  "is_section_fetch (HeaderQuery c) = False"
| "is_section_fetch (RootQuery c) = True"
| "is_section_fetch (WaveQuery ids) = True"

section \<open>\<open>precalculate_all_trees.py\<close>: build_tree_optimized\<close>

text \<open>The loop over the rows of a query that fills a dictionary of sections.\<close>

definition rows_to_dict :: "section_data list \<Rightarrow> (pyval \<times> section_data) list" where
  "rows_to_dict rows = fold (\<lambda>row acc. dict_set acc (sec_id row) row) rows []"

text \<open>\<open>collect_subsection_ids\<close>, on the set \<open>all_needed_ids\<close> it updates.\<close>

definition collect_subsection_ids :: "section_data \<Rightarrow> pyval set \<Rightarrow> pyval set" where
  "collect_subsection_ids section_data all_needed_ids =
     (if \<not> list_truthy (sous_sections section_data) then all_needed_ids
      else fold (\<lambda>ss acc. let ss_id = dict_get ss ''id''
                           in if truthy ss_id \<and> ss_id \<notin> acc then insert ss_id acc else acc)
             (the_list (sous_sections section_data)) all_needed_ids)"

text \<open>The ids to fetch in the next wave, collected from the sections of this one.\<close>

definition new_ids_loop ::
    "(pyval \<times> section_data) list \<Rightarrow> section_data list \<Rightarrow> pyval set" where
  "new_ids_loop all_sections new_values =
     fold (\<lambda>sec acc.
             if list_truthy (sous_sections sec) then
               fold (\<lambda>ss acc'. let ss_id = dict_get ss ''id''
                                in if truthy ss_id \<and> map_of all_sections ss_id = None
                                      \<and> ss_id \<notin> acc'
                                   then insert ss_id acc' else acc')
                 (the_list (sous_sections sec)) acc
             else acc)
       new_values {}"

definition max_waves :: nat where
  "max_waves = 10"

text \<open>
  The wave loop, on \<open>all_sections\<close>, \<open>remaining_ids\<close>, \<open>wave_num\<close> and the queries sent
  so far.
\<close>

function wave_loop ::
    "document list \<Rightarrow> (pyval \<times> section_data) list \<Rightarrow> pyval set \<Rightarrow> nat \<Rightarrow> query list
     \<Rightarrow> (pyval \<times> section_data) list \<times> nat \<times> query list" where
  "wave_loop documents all_sections remaining_ids wave_num sent =
     (if remaining_ids \<noteq> {} \<and> wave_num < max_waves then
        (let new_sections = rows_to_dict (wave_query documents remaining_ids);
             all_sections' = dict_update all_sections new_sections;
             new_ids_to_fetch = new_ids_loop all_sections' (map snd new_sections)
         in wave_loop documents all_sections' new_ids_to_fetch (wave_num + 1)
              (sent @ [WaveQuery remaining_ids]))
      else (all_sections, wave_num, sent))"
  by pat_completeness auto

termination
  by (relation "measure (\<lambda>(documents, all_sections, remaining_ids, wave_num, sent).
        max_waves - wave_num)") auto

declare wave_loop.simps [simp del]

text \<open>The returned dictionary.\<close>

record payload =
  p_code_id :: string
  p_titre :: string
  p_nature :: string
  p_tree :: "node list"
  p_nb_sections_loaded :: nat
  p_nb_waves :: nat

text \<open>
  \<open>build_tree_optimized\<close>: the result (\<open>None\<close> when the code has no header row, an
  error when the assembly raises) and the queries sent.
\<close>

definition build_tree_optimized ::
    "document list \<Rightarrow> string \<Rightarrow> (py_error + payload option) \<times> query list" where
  "build_tree_optimized documents code_id =
     (case header_query documents code_id of
        None \<Rightarrow> (Inr None, [HeaderQuery code_id])
      | Some (titre_code, nature) \<Rightarrow>
          (let rows = root_query documents code_id;
               root_ids = map sec_id rows;
               root_sections = rows_to_dict rows;
               all_needed_ids = fold collect_subsection_ids (map snd root_sections) (set root_ids);
               remaining_ids = all_needed_ids - set root_ids;
               (all_sections, wave_num, sent) =
                  wave_loop documents root_sections remaining_ids 0
                    [HeaderQuery code_id, RootQuery code_id]
           in (case roots_loop all_sections root_ids of
                 Inl e \<Rightarrow> Inl e
               | Inr tree \<Rightarrow>
                   Inr (Some \<lparr>p_code_id = code_id,
                      p_titre = py_or titre_code (''Code '' @ code_id),
                      p_nature = py_or nature ''CODE'',
                      p_tree = tree,
                      p_nb_sections_loaded = length all_sections,
                      p_nb_waves = wave_num\<rparr>),
               sent)))"

section \<open>Notions of the specification\<close>

text \<open>
  Following the spec's words, "a tree of depth D": the child references stored with an id
  lead down at most \<open>n\<close> levels, the section itself counted. \<open>tree_depth_le documents n i\<close>
  holds when every stored section row with metadata id \<open>i\<close> lists only children of depth
  at most \<open>n - 1\<close>; a leaf, or an id with no row, has depth 1.
\<close>

fun tree_depth_le :: "document list \<Rightarrow> nat \<Rightarrow> pyval \<Rightarrow> bool" where
  "tree_depth_le documents 0 i = False"
| "tree_depth_le documents (Suc n) i =
     (\<forall>d \<in> set documents.
        d_source d = ''LEGI'' \<and> d_doctype d = ''section'' \<and> m_id (d_meta d) = i \<longrightarrow>
        (\<forall>ss \<in> set (the_list (m_sous_sections (d_meta d))).
           truthy (dict_get ss ''id'') \<longrightarrow> tree_depth_le documents n (dict_get ss ''id'')))"

text \<open>
  Following the spec's words, "a child reference whose end-date is before now and whose
  state is not current". Dates are ISO strings, compared as text.
\<close>

definition spec_expired :: "string \<Rightarrow> ref \<Rightarrow> bool" where
  "spec_expired now x \<longleftrightarrow>
     (case dict_get x ''fin'' of None \<Rightarrow> False | Some fin \<Rightarrow> fin < now)
     \<and> dict_get x ''etat'' \<noteq> Some ''VIGUEUR''"

text \<open>
  Following the spec's words, "a structural id": \<open>LEGI\<close>, then between \<open>lo\<close> and \<open>hi\<close>
  capital letters, then 12 digits.
\<close>

definition legi_id_shape :: "nat \<Rightarrow> nat \<Rightarrow> string \<Rightarrow> bool" where
  "legi_id_shape lo hi m \<longleftrightarrow>
     (\<exists>us ds. m = ''LEGI'' @ us @ ds \<and> lo \<le> length us \<and> length us \<le> hi
        \<and> list_all is_upper_az us \<and> length ds = 12 \<and> list_all is_digit ds)"

text \<open>
  The entries read as content, and the entries on which a statement of the run is refused:
  a suppression list whose \<open>DELETE\<close> is, and a content entry whose row is.
\<close>

definition is_content :: "tar_member \<Rightarrow> bool" where
  "is_content member \<longleftrightarrow>
     tm_isfile member \<and> tm_extractfile member \<noteq> None
     \<and> guess_doctype (tm_name member) \<in> {''article'', ''texte'', ''section'', ''xml''}"

definition member_refused :: "env \<Rightarrow> string \<Rightarrow> string \<Rightarrow> tar_member \<Rightarrow> bool" where
  "member_refused env source updated_at member \<longleftrightarrow>
     tm_isfile member \<and>
     (case tm_extractfile member of
        None \<Rightarrow> False
      | Some data \<Rightarrow>
          if guess_doctype (tm_name member) = ''suppression_list''
          then delete_refused (parse_suppression_list env data) source
          else is_content member
               \<and> row_refused (content_row env source (tm_name member)
                     (guess_doctype (tm_name member)) updated_at data))"

text \<open>Following the spec's words, "valid UTF-8": the encoding of Unicode scalar values.\<close>

definition scalar_value :: "nat \<Rightarrow> bool" where
  "scalar_value cp \<longleftrightarrow> cp < 0x110000 \<and> \<not> (0xD800 \<le> cp \<and> cp < 0xE000)"

section \<open>Example rows\<close>

text \<open>Small corpora and stand-ins for the parameters, on which the properties below are
  evaluated.\<close>

definition legi_document :: "string \<Rightarrow> string \<Rightarrow> meta \<Rightarrow> document" where
  "legi_document i doctype m =
     \<lparr>d_id = i, d_source = ''LEGI'', d_doctype = doctype, d_path = [], d_updated_at = [],
      d_sha256 = [], d_meta = m, d_content_xml = [], d_content_text = []\<rparr>"

definition child_ref :: "string \<Rightarrow> ref" where
  "child_ref i = [(''id'', Some i), (''debut'', Some ''2000-01-01''),
     (''fin'', Some ''2999-01-01''), (''etat'', Some ''VIGUEUR'')]"

definition section_document :: "string \<Rightarrow> string \<Rightarrow> string list \<Rightarrow> document" where
  "section_document i parent children =
     legi_document i ''section''
       (empty_meta\<lparr>m_id := Some i, m_parent := Some parent,
          m_sous_sections := (if children = [] then None else Some (map child_ref children))\<rparr>)"

definition code_document :: "string \<Rightarrow> document" where
  "code_document i = legi_document i ''texte'' (empty_meta\<lparr>m_id := Some i, m_titre := Some ''Code''\<rparr>)"

definition chain12 :: "document list" where
  "chain12 = [code_document ''C'', section_document ''S01'' ''C'' [''S02''],
     section_document ''S02'' ''S01'' [''S03''], section_document ''S03'' ''S02'' [''S04''],
     section_document ''S04'' ''S03'' [''S05''], section_document ''S05'' ''S04'' [''S06''],
     section_document ''S06'' ''S05'' [''S07''], section_document ''S07'' ''S06'' [''S08''],
     section_document ''S08'' ''S07'' [''S09''], section_document ''S09'' ''S08'' [''S10''],
     section_document ''S10'' ''S09'' [''S11''], section_document ''S11'' ''S10'' [''S12''],
     section_document ''S12'' ''S11'' []]"

definition leaf_section :: "string \<Rightarrow> section_data" where
  "leaf_section i = \<lparr>sec_id = Some i, sec_titre = None, sous_sections = None, articles = None,
     nb_sections = 0, nb_articles = 0\<rparr>"

definition dated_ref :: "string \<Rightarrow> string \<Rightarrow> string \<Rightarrow> ref" where
  "dated_ref i fin etat = [(''id'', Some i), (''debut'', Some ''2000-01-01''),
     (''fin'', Some fin), (''etat'', Some etat)]"

definition mixed_sections :: "(pyval \<times> section_data) list" where
  "mixed_sections =
     [(Some ''S'', \<lparr>sec_id = Some ''S'', sec_titre = None,
         sous_sections = Some [dated_ref ''K1'' ''2999-01-01'' ''VIGUEUR'',
                               dated_ref ''K2'' ''2020-01-01'' ''ABROGE'',
                               dated_ref ''K3'' ''2020-01-01'' ''VIGUEUR''],
         articles = Some [dated_ref ''A1'' ''2020-01-01'' ''ABROGE'',
                          dated_ref ''A2'' ''2999-01-01'' ''MODIFIE''],
         nb_sections = 3, nb_articles = 2\<rparr>),
      (Some ''K1'', leaf_section ''K1''), (Some ''K2'', leaf_section ''K2''),
      (Some ''K3'', leaf_section ''K3'')]"

definition cyclic_sections :: "(pyval \<times> section_data) list" where
  "cyclic_sections =
     [(Some ''A'', \<lparr>sec_id = Some ''A'', sec_titre = None,
         sous_sections = Some [child_ref ''A''], articles = None,
         nb_sections = 1, nb_articles = 0\<rparr>)]"

definition tree2 :: "document list" where
  "tree2 = [code_document ''C'', section_document ''S1'' ''C'' [''A'', ''B'', ''D''],
     section_document ''A'' ''S1'' [], section_document ''B'' ''S1'' [],
     section_document ''D'' ''S1'' []]"

definition section_version :: "string \<Rightarrow> string \<Rightarrow> string \<Rightarrow> pyval \<Rightarrow> string \<Rightarrow> document" where
  "section_version row_id i parent date_debut titre =
     legi_document row_id ''section''
       (empty_meta\<lparr>m_id := Some i, m_parent := Some parent, m_date_debut := date_debut,
          m_titre := Some titre\<rparr>)"

definition versions :: "document list" where
  "versions = [code_document ''C'',
     section_version ''r1'' ''S1'' ''C'' (Some ''2000-01-01'') ''old'',
     section_version ''r2'' ''S1'' ''C'' (Some ''2020-01-01'') ''new'',
     section_version ''r3'' ''S1'' ''C'' None ''undated'',
     section_version ''r4'' ''S2'' ''C'' None ''other'']"

definition article_row :: "string \<Rightarrow> string \<Rightarrow> unicode \<Rightarrow> document" where
  "article_row snapshot sha content =
     \<lparr>d_id = ''LEGIARTI000006797825'', d_source = ''LEGI'', d_doctype = ''article'',
      d_path = snapshot @ ''/legi/article/LEGIARTI000006797825.xml'', d_updated_at = snapshot,
      d_sha256 = sha, d_meta = empty_meta\<lparr>m_id := Some ''LEGIARTI000006797825''\<rparr>,
      d_content_xml = content, d_content_text = content\<rparr>"

definition nul_member :: tar_member where
  "nul_member =
     \<lparr>tm_name = ''20260104-202823/legi/article/LEGIARTI000006797826.xml'', tm_isfile = True,
      tm_extractfile = Some [CHR 0x00]\<rparr>"

definition sound_member :: tar_member where
  "sound_member =
     \<lparr>tm_name = ''20260104-202823/legi/article/LEGIARTI000006797827.xml'', tm_isfile = True,
      tm_extractfile = Some ''<ARTICLE/>''\<rparr>"

definition example_hash :: "char list \<Rightarrow> string" where
  "example_hash b = ''sha256:'' @ b"

definition example_ilike :: "string \<Rightarrow> string \<Rightarrow> bool" where
  "example_ilike s pattern = contains (lower s) (lower (butlast (tl pattern)))"

definition example_jsonb_text :: "meta \<Rightarrow> string" where
  "example_jsonb_text m =
     (case m_id m of None \<Rightarrow> ''{}'' | Some i \<Rightarrow> ''{\"id\": \"'' @ i @ ''\"}'')"


definition example_xml :: "char list \<Rightarrow> string \<Rightarrow> string + unicode \<times> meta" where
  "example_xml data path_in_tar =
     (if take 1 data = ''<'' then Inr (map of_char data, empty_meta\<lparr>m_root_tag := Some ''ARTICLE''\<rparr>)
      else Inl ''Start tag expected'')"

definition example_env :: env where
  "example_env =
     \<lparr>env_sha256 = example_hash, env_xml = example_xml, env_decode_ignore = (\<lambda>data. data),
      env_upper = (\<lambda>s. s), env_ilike = example_ilike, env_jsonb_text = example_jsonb_text\<rparr>"

definition broken_member :: tar_member where
  "broken_member =
     \<lparr>tm_name = ''20260104-202823/legi/article/LEGIARTI000006797825.xml'', tm_isfile = True,
      tm_extractfile = Some ''not xml''\<rparr>"

section \<open>Properties of the assembly\<close>

lemma articles_loop_take:
  "length acc < 500 \<Longrightarrow>
   articles_loop arts acc = take 500 (acc @ map article_of (filter en_vigueur arts))"
proof (induction arts arbitrary: acc)
  case Nil
  then show ?case by simp
next
  case (Cons art rest)
  show ?case
  proof (cases "en_vigueur art")
    case False
    with Cons show ?thesis by simp
  next
    case True
    show ?thesis
    proof (cases "length acc = 499")
      case True
      with \<open>en_vigueur art\<close> show ?thesis by simp
    next
      case False
      with Cons.prems have "length (acc @ [article_of art]) < 500" by simp
      from Cons.IH [OF this] \<open>en_vigueur art\<close> False Cons.prems show ?thesis
        by (simp add: Let_def)
    qed
  qed
qed

lemma build_node_articles:
  assumes "build_node_from_memory all_sections section_id current_depth max_depth = Inr (Some nd)"
    and "map_of all_sections section_id = Some sec"
  shows "n_articles nd =
    (if list_truthy (articles sec) then articles_loop (the_list (articles sec)) [] else [])"
  using assms
  by (subst (asm) build_node_from_memory.simps) (auto split: if_splits sum.splits)

text \<open>
  C7 (truncation policy). When \<open>build_node_from_memory\<close> returns a node for a loaded
  section, the node's article list is the first 500 of the section's articles that pass
  the validity filter, in the order of the stored metadata: its length is the number of
  qualifying articles capped at 500, so exactly 500 as soon as 500 or more qualify
  (600, say).
\<close>

theorem truncation_policy:
  assumes "build_node_from_memory all_sections section_id current_depth max_depth = Inr (Some nd)"
    and "map_of all_sections section_id = Some sec"
    and "articles sec = Some arts"
  shows "n_articles nd = map article_of (take 500 (filter en_vigueur arts))
    \<and> length (n_articles nd) = min 500 (length (filter en_vigueur arts))
    \<and> (length (filter en_vigueur arts) \<ge> 500 \<longrightarrow> length (n_articles nd) = 500)"
proof -
  have loop: "articles_loop arts [] = take 500 (map article_of (filter en_vigueur arts))"
    using articles_loop_take [of "[]" arts] by simp
  have "n_articles nd = take 500 (map article_of (filter en_vigueur arts))"
  proof (cases "arts = []")
    case True
    with build_node_articles [OF assms(1,2)] assms(3) show ?thesis
      by (simp add: list_truthy_def)
  next
    case False
    with build_node_articles [OF assms(1,2)] assms(3) loop show ?thesis
      by (simp add: list_truthy_def the_list_def)
  qed
  then show ?thesis by (simp add: take_map)
qed

theorem truncation_policy_witness:
  "length (filter en_vigueur (replicate 600 [(''id'', Some ''LEGIARTI000000000001'')])) \<ge> 500
   \<and> build_node_from_memory
       [(Some ''S'', \<lparr>sec_id = Some ''S'', sec_titre = None, sous_sections = None,
          articles = Some (replicate 600 [(''id'', Some ''LEGIARTI000000000001'')]),
          nb_sections = 0, nb_articles = 600\<rparr>)] (Some ''S'') 1 10
     = Inr (Some (Node (Some ''S'') None 0 600 []
         (replicate 500 \<lparr>a_id = Some ''LEGIARTI000000000001'', a_num = None,
            a_titre = Some []\<rparr>)))
   \<and> length (replicate 500 \<lparr>a_id = Some ''LEGIARTI000000000001'', a_num = None,
            a_titre = Some []\<rparr>) = 500"
proof -
  let ?art = "[(''id'', Some ''LEGIARTI000000000001'')]"
  let ?sec = "\<lparr>sec_id = Some ''S'', sec_titre = None, sous_sections = None,
          articles = Some (replicate 600 ?art), nb_sections = 0, nb_articles = 600\<rparr>"
  let ?nd = "Node (Some ''S'') None 0 600 []
         (replicate 500 \<lparr>a_id = Some ''LEGIARTI000000000001'', a_num = None,
            a_titre = Some []\<rparr>)"
  have ev: "en_vigueur ?art"
    by (simp add: en_vigueur_def dict_get_default_def)
  have q: "length (filter en_vigueur (replicate 600 ?art)) \<ge> 500"
    using ev by simp
  have loop: "articles_loop (replicate 600 ?art) [] =
      replicate 500 \<lparr>a_id = Some ''LEGIARTI000000000001'', a_num = None, a_titre = Some []\<rparr>"
    using articles_loop_take [of "[]" "replicate 600 ?art"] ev
    by (simp add: article_of_def dict_get_def dict_get_default_def)
  have b: "build_node_from_memory [(Some ''S'', ?sec)] (Some ''S'') 1 10 = Inr (Some ?nd)"
    by (simp add: build_node_from_memory.simps list_truthy_def the_list_def loop)
  from truncation_policy [OF b, of ?sec "replicate 600 ?art"] q b show ?thesis
    by simp
qed

lemma in_map_filter: "y \<in> set (List.map_filter f xs) \<longleftrightarrow> (\<exists>x \<in> set xs. f x = Some y)"
  by (induction xs) (auto split: option.splits)

lemma latest_in: "latest b ds \<in> set (b # ds)"
  by (induction ds arbitrary: b) auto

lemma latest_ge_init: "date_key b \<le> date_key (latest b ds)"
proof (induction ds arbitrary: b)
  case Nil
  then show ?case by simp
next
  case (Cons a ds)
  have "date_key b \<le> date_key (if date_key b < date_key a then a else b)"
    by (auto intro: less_imp_le)
  also have "\<dots> \<le> date_key (latest (if date_key b < date_key a then a else b) ds)"
    by (rule Cons.IH)
  finally show ?case by simp
qed

lemma latest_max: "d \<in> set (b # ds) \<Longrightarrow> date_key d \<le> date_key (latest b ds)"
proof (induction ds arbitrary: b)
  case Nil
  then show ?case by simp
next
  case (Cons a ds)
  let ?b' = "if date_key b < date_key a then a else b"
  from Cons.prems consider "d = b" | "d = a" | "d \<in> set ds" by auto
  then show ?case
  proof cases
    case 1
    then show ?thesis using latest_ge_init [of b "a # ds"] by simp
  next
    case 2
    have "date_key a \<le> date_key ?b'" by auto
    also have "\<dots> \<le> date_key (latest ?b' ds)" by (rule latest_ge_init)
    finally show ?thesis using 2 by simp
  next
    case 3
    then show ?thesis using Cons.IH [of ?b'] by simp
  qed
qed

lemma pick_latest_Some:
  assumes "pick_latest rows i = Some r"
  shows "\<exists>d \<in> set rows. m_id (d_meta d) = i \<and> r = section_row d
           \<and> (\<forall>d' \<in> set rows. m_id (d_meta d') = i \<longrightarrow> date_key d' \<le> date_key d)"
proof -
  from assms obtain d ds where
    f: "filter (\<lambda>d. m_id (d_meta d) = i) rows = d # ds" and r: "r = section_row (latest d ds)"
    by (auto simp: pick_latest_def split: list.splits)
  have "latest d ds \<in> set (d # ds)" by (rule latest_in)
  with f have in_f: "latest d ds \<in> set (filter (\<lambda>d. m_id (d_meta d) = i) rows)" by simp
  have "\<forall>d' \<in> set (d # ds). date_key d' \<le> date_key (latest d ds)"
    using latest_max by blast
  with f have max: "\<forall>d' \<in> set (filter (\<lambda>d. m_id (d_meta d) = i) rows).
      date_key d' \<le> date_key (latest d ds)" by simp
  from in_f max r show ?thesis
    by (intro bexI [of _ "latest d ds"]) auto
qed

lemma pick_latest_None: "pick_latest rows i = None \<longleftrightarrow> (\<forall>d \<in> set rows. m_id (d_meta d) \<noteq> i)"
proof -
  have "pick_latest rows i = None \<longleftrightarrow> filter (\<lambda>d. m_id (d_meta d) = i) rows = []"
    by (simp add: pick_latest_def split: list.splits)
  then show ?thesis by (simp add: filter_empty_conv)
qed

lemma select_sections_mem:
  assumes "r \<in> set (select_sections cond documents)"
  shows "\<exists>d \<in> set documents. d_source d = ''LEGI'' \<and> d_doctype d = ''section'' \<and> cond d
           \<and> r = section_row d
           \<and> (\<forall>d' \<in> set documents. d_source d' = ''LEGI'' \<and> d_doctype d' = ''section'' \<and> cond d'
                 \<and> m_id (d_meta d') = m_id (d_meta d) \<longrightarrow> date_key d' \<le> date_key d)"
proof -
  let ?rows = "filter (\<lambda>d. d_source d = ''LEGI'' \<and> d_doctype d = ''section'' \<and> cond d) documents"
  from assms obtain i where "pick_latest ?rows i = Some r"
    by (auto simp: select_sections_def Let_def in_map_filter)
  from pick_latest_Some [OF this] show ?thesis by auto
qed

lemma distinct_ordered_ids: "distinct (ordered_ids rows)"
  by (auto simp: ordered_ids_def distinct_map)

lemma mem_ordered_ids: "i \<in> set (ordered_ids rows) \<longleftrightarrow> (\<exists>d \<in> set rows. m_id (d_meta d) = i)"
proof (cases i)
  case None
  then show ?thesis by (auto simp: ordered_ids_def)
next
  case (Some s)
  have "s \<in> set (List.map_filter (\<lambda>d. m_id (d_meta d)) rows)
        \<longleftrightarrow> (\<exists>d \<in> set rows. m_id (d_meta d) = Some s)"
    by (rule in_map_filter)
  with Some show ?thesis by (auto simp: ordered_ids_def)
qed

lemma map_filter_sec_id:
  "\<forall>i \<in> set ids. \<forall>r. f i = Some r \<longrightarrow> sec_id r = i \<Longrightarrow>
   map sec_id (List.map_filter f ids) = filter (\<lambda>i. f i \<noteq> None) ids"
  by (induction ids) (auto split: option.splits)

lemma select_sections_ids:
  "map sec_id (select_sections cond documents) =
     ordered_ids (filter (\<lambda>d. d_source d = ''LEGI'' \<and> d_doctype d = ''section'' \<and> cond d) documents)"
proof -
  let ?rows = "filter (\<lambda>d. d_source d = ''LEGI'' \<and> d_doctype d = ''section'' \<and> cond d) documents"
  have id: "\<forall>i \<in> set (ordered_ids ?rows). \<forall>r. pick_latest ?rows i = Some r \<longrightarrow> sec_id r = i"
    using pick_latest_Some by (fastforce simp: section_row_def)
  have all: "\<forall>i \<in> set (ordered_ids ?rows). pick_latest ?rows i \<noteq> None"
    by (auto simp: pick_latest_None mem_ordered_ids)
  have "map sec_id (List.map_filter (pick_latest ?rows) (ordered_ids ?rows))
        = filter (\<lambda>i. pick_latest ?rows i \<noteq> None) (ordered_ids ?rows)"
    by (rule map_filter_sec_id [OF id])
  also have "\<dots> = ordered_ids ?rows"
    using all by (simp add: filter_id_conv)
  finally show ?thesis by (simp add: select_sections_def Let_def)
qed

lemma set_update_subset: "set (AList.update k v al) \<subseteq> insert (k, v) (set al)"
  by (induction al) auto

lemma rows_to_dict_fold_values:
  "snd ` set (fold (\<lambda>row acc. dict_set acc (sec_id row) row) rows acc) \<subseteq> snd ` set acc \<union> set rows"
proof (induction rows arbitrary: acc)
  case Nil
  then show ?case by simp
next
  case (Cons row rows)
  have "snd ` set (dict_set acc (sec_id row) row) \<subseteq> insert row (snd ` set acc)"
    using set_update_subset [of "sec_id row" row acc] by (auto simp: dict_set_def)
  with Cons.IH [of "dict_set acc (sec_id row) row"] show ?case by auto
qed

lemma rows_to_dict_values: "snd ` set (rows_to_dict rows) \<subseteq> set rows"
  using rows_to_dict_fold_values [of rows "[]"] by (simp add: rows_to_dict_def)

lemma new_ids_inner:
  "i \<in> fold (\<lambda>ss acc'. let ss_id = dict_get ss ''id''
                        in if truthy ss_id \<and> map_of all_sections ss_id = None \<and> ss_id \<notin> acc'
                           then insert ss_id acc' else acc') refs acc \<Longrightarrow>
   i \<in> acc \<or> (\<exists>ss \<in> set refs. i = dict_get ss ''id'' \<and> truthy i \<and> map_of all_sections i = None)"
  by (induction refs arbitrary: acc) (auto simp: Let_def split: if_splits)

lemma new_ids_outer:
  "i \<in> fold (\<lambda>sec acc.
             if list_truthy (sous_sections sec) then
               fold (\<lambda>ss acc'. let ss_id = dict_get ss ''id''
                                in if truthy ss_id \<and> map_of all_sections ss_id = None
                                      \<and> ss_id \<notin> acc'
                                   then insert ss_id acc' else acc')
                 (the_list (sous_sections sec)) acc
             else acc) new_values acc0 \<Longrightarrow>
   i \<in> acc0 \<or> (\<exists>sec \<in> set new_values. \<exists>ss \<in> set (the_list (sous_sections sec)).
                  i = dict_get ss ''id'' \<and> truthy i \<and> map_of all_sections i = None)"
proof (induction new_values arbitrary: acc0)
  case Nil
  then show ?case by simp
next
  case (Cons sec rest)
  show ?case
  proof (cases "list_truthy (sous_sections sec)")
    case False
    with Cons.prems Cons.IH [of acc0] show ?thesis by auto
  next
    case True
    let ?acc1 = "fold (\<lambda>ss acc'. let ss_id = dict_get ss ''id''
                                in if truthy ss_id \<and> map_of all_sections ss_id = None
                                      \<and> ss_id \<notin> acc'
                                   then insert ss_id acc' else acc')
                 (the_list (sous_sections sec)) acc0"
    from Cons.prems True Cons.IH [of ?acc1]
    consider "i \<in> ?acc1" | "\<exists>sec \<in> set rest. \<exists>ss \<in> set (the_list (sous_sections sec)).
                  i = dict_get ss ''id'' \<and> truthy i \<and> map_of all_sections i = None"
      by auto
    then show ?thesis
    proof cases
      case 1
      from new_ids_inner [OF this] show ?thesis by auto
    next
      case 2
      then show ?thesis by auto
    qed
  qed
qed

lemma new_ids_loop_mem:
  "i \<in> new_ids_loop all_sections new_values \<Longrightarrow>
   \<exists>sec \<in> set new_values. \<exists>ss \<in> set (the_list (sous_sections sec)).
      i = dict_get ss ''id'' \<and> truthy i \<and> map_of all_sections i = None"
  unfolding new_ids_loop_def using new_ids_outer [of i all_sections new_values "{}"] by simp

lemma collect_inner:
  "i \<in> fold (\<lambda>ss acc. let ss_id = dict_get ss ''id''
                       in if truthy ss_id \<and> ss_id \<notin> acc then insert ss_id acc else acc) refs acc \<Longrightarrow>
   i \<in> acc \<or> (\<exists>ss \<in> set refs. i = dict_get ss ''id'' \<and> truthy i)"
  by (induction refs arbitrary: acc) (auto simp: Let_def split: if_splits)

lemma collect_subsection_ids_mem:
  "i \<in> collect_subsection_ids sec acc \<Longrightarrow>
   i \<in> acc \<or> (\<exists>ss \<in> set (the_list (sous_sections sec)). i = dict_get ss ''id'' \<and> truthy i)"
  using collect_inner [of i "the_list (sous_sections sec)" acc]
  by (auto simp: collect_subsection_ids_def split: if_splits)

lemma fold_collect_mem:
  "i \<in> fold collect_subsection_ids secs acc \<Longrightarrow>
   i \<in> acc \<or> (\<exists>sec \<in> set secs. \<exists>ss \<in> set (the_list (sous_sections sec)).
                 i = dict_get ss ''id'' \<and> truthy i)"
proof (induction secs arbitrary: acc)
  case Nil
  then show ?case by simp
next
  case (Cons sec secs)
  from Cons.IH [of "collect_subsection_ids sec acc"] Cons.prems
  consider "i \<in> collect_subsection_ids sec acc"
    | "\<exists>sec \<in> set secs. \<exists>ss \<in> set (the_list (sous_sections sec)). i = dict_get ss ''id'' \<and> truthy i"
    by auto
  then show ?case
  proof cases
    case 1
    from collect_subsection_ids_mem [OF this] show ?thesis by auto
  next
    case 2
    then show ?thesis by auto
  qed
qed

text \<open>The children of a fetched row are one level further down.\<close>

lemma fetched_children_depth:
  assumes r: "r \<in> set (select_sections cond documents)"
    and dep: "\<forall>d \<in> set documents. d_source d = ''LEGI'' \<and> d_doctype d = ''section'' \<and> cond d
               \<longrightarrow> tree_depth_le documents (Suc k) (m_id (d_meta d))"
    and ss: "ss \<in> set (the_list (sous_sections r))" and t: "truthy (dict_get ss ''id'')"
  shows "tree_depth_le documents k (dict_get ss ''id'')"
proof -
  from select_sections_mem [OF r] obtain d where d: "d \<in> set documents"
    "d_source d = ''LEGI''" "d_doctype d = ''section''" "cond d" "r = section_row d"
    by blast
  with dep have "tree_depth_le documents (Suc k) (m_id (d_meta d))" by blast
  with d ss t show ?thesis by (auto simp: section_row_def)
qed

lemma wave_loop_counts:
  "wave_loop documents all_sections remaining_ids wave_num sent = (all', w', sent') \<Longrightarrow>
   wave_num \<le> w' \<and> (wave_num \<le> max_waves \<longrightarrow> w' \<le> max_waves)
   \<and> length (filter is_section_fetch sent') = length (filter is_section_fetch sent) + (w' - wave_num)"
proof (induction documents all_sections remaining_ids wave_num sent rule: wave_loop.induct)
  case (1 documents all_sections remaining_ids wave_num sent)
  show ?case
  proof (cases "remaining_ids \<noteq> {} \<and> wave_num < max_waves")
    case False
    with "1.prems" show ?thesis by (subst (asm) wave_loop.simps) auto
  next
    case True
    let ?ns = "rows_to_dict (wave_query documents remaining_ids)"
    let ?all = "dict_update all_sections ?ns"
    let ?ids = "new_ids_loop ?all (map snd ?ns)"
    from "1.prems" True have
      "wave_loop documents ?all ?ids (wave_num + 1) (sent @ [WaveQuery remaining_ids]) = (all', w', sent')"
      by (subst (asm) wave_loop.simps) (simp add: Let_def)
    from "1.IH" [OF True refl refl refl this] True show ?thesis by auto
  qed
qed

lemma wave_loop_depth:
  "\<forall>i \<in> remaining_ids. tree_depth_le documents k i \<Longrightarrow>
   wave_loop documents all_sections remaining_ids wave_num sent = (all', w', sent') \<Longrightarrow>
   w' \<le> wave_num + k"
proof (induction k arbitrary: all_sections remaining_ids wave_num sent)
  case 0
  then have "remaining_ids = {}" by auto
  with "0.prems"(2) show ?case by (subst (asm) wave_loop.simps) simp
next
  case (Suc k)
  show ?case
  proof (cases "remaining_ids \<noteq> {} \<and> wave_num < max_waves")
    case False
    with Suc.prems(2) show ?thesis by (subst (asm) wave_loop.simps) auto
  next
    case True
    let ?ns = "rows_to_dict (wave_query documents remaining_ids)"
    let ?all = "dict_update all_sections ?ns"
    let ?ids = "new_ids_loop ?all (map snd ?ns)"
    from Suc.prems(2) True have w:
      "wave_loop documents ?all ?ids (wave_num + 1) (sent @ [WaveQuery remaining_ids]) = (all', w', sent')"
      by (subst (asm) wave_loop.simps) (simp add: Let_def)
    have "\<forall>i \<in> ?ids. tree_depth_le documents k i"
    proof
      fix i assume "i \<in> ?ids"
      from new_ids_loop_mem [OF this] obtain sec ss where
        sec: "sec \<in> set (map snd ?ns)" and ss: "ss \<in> set (the_list (sous_sections sec))"
        and i: "i = dict_get ss ''id''" "truthy i" by blast
      from sec rows_to_dict_values [of "wave_query documents remaining_ids"]
      have "sec \<in> set (select_sections (\<lambda>d. m_id (d_meta d) \<noteq> None \<and> m_id (d_meta d) \<in> remaining_ids) documents)"
        by (auto simp: wave_query_def)
      from fetched_children_depth [OF this _ ss] Suc.prems(1) i
      show "tree_depth_le documents k i" by blast
    qed
    from Suc.IH [OF this w] show ?thesis by simp
  qed
qed

lemma foldr_max_le:
  "(\<forall>c \<in> set cs. f c \<le> (k::nat)) \<Longrightarrow> foldr max (map f cs) 0 \<le> k"
  by (induction cs) auto

lemma depth_bound_aux:
  "(\<forall>nd. build_node_from_memory a s d md = Inr (Some nd) \<longrightarrow> d + node_depth nd \<le> md + 1)"
  "(\<forall>cs. children_loop a refs d' md' = Inr cs \<longrightarrow> (\<forall>c \<in> set cs. d' + node_depth c \<le> md' + 1))"
proof (induction a s d md and a refs d' md' rule: build_node_from_memory_children_loop.induct)
  case (1 all_sections section_id current_depth max_depth)
  show ?case
  proof (intro allI impI)
    fix nd
    assume b: "build_node_from_memory all_sections section_id current_depth max_depth = Inr (Some nd)"
    from b have le: "current_depth \<le> max_depth"
      by (subst (asm) build_node_from_memory.simps) (auto split: if_splits)
    from b obtain sec where sec: "map_of all_sections section_id = Some sec"
      by (subst (asm) build_node_from_memory.simps) (auto split: if_splits option.splits)
    show "current_depth + node_depth nd \<le> max_depth + 1"
    proof (cases "current_depth < max_depth \<and> list_truthy (sous_sections sec)")
      case True
      with b sec le obtain cs where
        cs: "children_loop all_sections (the_list (sous_sections sec)) (current_depth + 1) max_depth = Inr cs"
        and nd: "n_children nd = cs"
        by (subst (asm) build_node_from_memory.simps) (auto split: sum.splits)
      from "1.IH" [OF _ sec] le True cs
      have "\<forall>c \<in> set cs. current_depth + 1 + node_depth c \<le> max_depth + 1"
        by auto
      then have "\<forall>c \<in> set cs. node_depth c \<le> max_depth - current_depth" by auto
      then have "foldr max (map node_depth cs) 0 \<le> max_depth - current_depth"
        by (rule foldr_max_le)
      with nd True show ?thesis by (cases nd) auto
    next
      case False
      with b sec le have "n_children nd = []"
        by (subst (asm) build_node_from_memory.simps) (auto split: sum.splits)
      with le show ?thesis by (cases nd) auto
    qed
  qed
next
  case (2 all_sections child_depth max_depth)
  then show ?case by simp
next
  case (3 all_sections ss rest child_depth max_depth)
  then show ?case
    by (auto split: if_splits sum.splits option.splits)
qed

lemma roots_loop_depth:
  "roots_loop all_sections root_ids = Inr tree \<Longrightarrow> nd \<in> set tree \<Longrightarrow> node_depth nd \<le> 10"
proof (induction root_ids arbitrary: tree)
  case Nil
  then show ?case by simp
next
  case (Cons root_id rest)
  from Cons.prems(1) obtain r t where
    r: "build_node_from_memory all_sections root_id 1 10 = Inr r"
    and t: "roots_loop all_sections rest = Inr t"
    and tree: "tree = (case r of None \<Rightarrow> t | Some n \<Rightarrow> n # t)"
    by (auto split: sum.splits)
  show ?case
  proof (cases "nd \<in> set t")
    case True
    with Cons.IH [OF t] show ?thesis by simp
  next
    case False
    with tree Cons.prems(2) have "r = Some nd" by (auto split: option.splits)
    with r depth_bound_aux(1) [of all_sections root_id 1 10] show ?thesis by auto
  qed
qed

lemma build_tree_parts:
  assumes "header_query documents code_id = Some h"
  shows "\<exists>all' w' sent'.
     wave_loop documents (rows_to_dict (root_query documents code_id))
       (fold collect_subsection_ids (map snd (rows_to_dict (root_query documents code_id)))
          (set (map sec_id (root_query documents code_id)))
        - set (map sec_id (root_query documents code_id))) 0
       [HeaderQuery code_id, RootQuery code_id] = (all', w', sent')
     \<and> snd (build_tree_optimized documents code_id) = sent'
     \<and> (\<forall>p. fst (build_tree_optimized documents code_id) = Inr (Some p) \<longrightarrow>
           p_nb_waves p = w' \<and> p_nb_sections_loaded p = length all'
           \<and> roots_loop all' (map sec_id (root_query documents code_id)) = Inr (p_tree p))"
  using assms
  by (cases h; cases "wave_loop documents (rows_to_dict (root_query documents code_id))
       (fold collect_subsection_ids (map snd (rows_to_dict (root_query documents code_id)))
          (set (map sec_id (root_query documents code_id)))
        - set (map sec_id (root_query documents code_id))) 0
       [HeaderQuery code_id, RootQuery code_id]")
     (auto simp: build_tree_optimized_def Let_def split: sum.splits)

lemma build_tree_not_found:
  "header_query documents code_id = None \<Longrightarrow>
   build_tree_optimized documents code_id = (Inr None, [HeaderQuery code_id])"
  by (simp add: build_tree_optimized_def)

text \<open>
  C5 (depth bound honored exactly). The tree of a payload returned by
  \<open>build_tree_optimized\<close> has no node below level 10, root sections being level 1; in
  general a node built at \<open>current_depth\<close> reaches no level beyond \<open>max_depth\<close>. A
  section at level \<open>max_depth\<close> is returned without children and without reading its child
  references, so nothing stored beyond the bound can raise an error, and a call beyond the
  bound returns \<open>None\<close>, not an error.
\<close>

theorem depth_bound_honored:
  "(fst (build_tree_optimized documents code_id) = Inr (Some p) \<longrightarrow>
      (\<forall>nd \<in> set (p_tree p). node_depth nd \<le> 10))
   \<and> (build_node_from_memory all_sections section_id current_depth max_depth = Inr (Some n) \<longrightarrow>
        current_depth + node_depth n \<le> max_depth + 1)
   \<and> (map_of all_sections section_id = Some sec \<longrightarrow>
        build_node_from_memory all_sections section_id max_depth max_depth =
          Inr (Some (Node (sec_id sec) (sec_titre sec) (nb_sections sec) (nb_articles sec) []
            (if list_truthy (articles sec) then articles_loop (the_list (articles sec)) [] else []))))
   \<and> (current_depth > max_depth \<longrightarrow>
        build_node_from_memory all_sections section_id current_depth max_depth = Inr None)"
proof (intro conjI impI ballI)
  fix nd
  assume b: "fst (build_tree_optimized documents code_id) = Inr (Some p)" and nd: "nd \<in> set (p_tree p)"
  show "node_depth nd \<le> 10"
  proof (cases "header_query documents code_id")
    case None
    with b show ?thesis by (simp add: build_tree_not_found)
  next
    case (Some h)
    from build_tree_parts [OF Some] b obtain all' where
      "roots_loop all' (map sec_id (root_query documents code_id)) = Inr (p_tree p)" by blast
    from roots_loop_depth [OF this nd] show ?thesis .
  qed
next
  assume "build_node_from_memory all_sections section_id current_depth max_depth = Inr (Some n)"
  with depth_bound_aux(1) show "current_depth + node_depth n \<le> max_depth + 1" by blast
next
  assume "map_of all_sections section_id = Some sec"
  then show "build_node_from_memory all_sections section_id max_depth max_depth =
          Inr (Some (Node (sec_id sec) (sec_titre sec) (nb_sections sec) (nb_articles sec) []
            (if list_truthy (articles sec) then articles_loop (the_list (articles sec)) [] else [])))"
    by (subst build_node_from_memory.simps) simp
next
  assume "current_depth > max_depth"
  then show "build_node_from_memory all_sections section_id current_depth max_depth = Inr None"
    by (subst build_node_from_memory.simps) simp
qed

theorem depth_bound_honored_witness:
  "fst (build_tree_optimized chain12 ''C'') =
     Inr (Some \<lparr>p_code_id = ''C'', p_titre = ''Code'', p_nature = ''CODE'',
        p_tree = [Node (Some ''S01'') None 0 0 [Node (Some ''S02'') None 0 0 [Node (Some ''S03'') None 0 0 [Node (Some ''S04'') None 0 0 [Node (Some ''S05'') None 0 0 [Node (Some ''S06'') None 0 0 [Node (Some ''S07'') None 0 0 [Node (Some ''S08'') None 0 0 [Node (Some ''S09'') None 0 0 [Node (Some ''S10'') None 0 0 [] []] []] []] []] []] []] []] []] []] []],
        p_nb_sections_loaded = 11, p_nb_waves = 10\<rparr>)
   \<and> list_all (\<lambda>nd. node_depth nd \<le> 10) [Node (Some ''S01'') None 0 0 [Node (Some ''S02'') None 0 0 [Node (Some ''S03'') None 0 0 [Node (Some ''S04'') None 0 0 [Node (Some ''S05'') None 0 0 [Node (Some ''S06'') None 0 0 [Node (Some ''S07'') None 0 0 [Node (Some ''S08'') None 0 0 [Node (Some ''S09'') None 0 0 [Node (Some ''S10'') None 0 0 [] []] []] []] []] []] []] []] []] []] []]
   \<and> build_node_from_memory
        [(Some ''A'', \<lparr>sec_id = Some ''A'', sec_titre = None,
            sous_sections = Some [[(''fin'', Some ''2999-01-01'')]], articles = None,
            nb_sections = 1, nb_articles = 0\<rparr>)] (Some ''A'') 10 10
      = Inr (Some (Node (Some ''A'') None 1 0 [] []))
   \<and> build_node_from_memory
        [(Some ''A'', \<lparr>sec_id = Some ''A'', sec_titre = None,
            sous_sections = Some [[(''fin'', Some ''2999-01-01'')]], articles = None,
            nb_sections = 1, nb_articles = 0\<rparr>)] (Some ''A'') 11 10
      = Inr None"
proof -
  let ?p = "\<lparr>p_code_id = ''C'', p_titre = ''Code'', p_nature = ''CODE'',
        p_tree = [Node (Some ''S01'') None 0 0 [Node (Some ''S02'') None 0 0 [Node (Some ''S03'') None 0 0 [Node (Some ''S04'') None 0 0 [Node (Some ''S05'') None 0 0 [Node (Some ''S06'') None 0 0 [Node (Some ''S07'') None 0 0 [Node (Some ''S08'') None 0 0 [Node (Some ''S09'') None 0 0 [Node (Some ''S10'') None 0 0 [] []] []] []] []] []] []] []] []] []] []],
        p_nb_sections_loaded = 11, p_nb_waves = 10\<rparr>"
  let ?sec = "\<lparr>sec_id = Some ''A'', sec_titre = None,
            sous_sections = Some [[(''fin'', Some ''2999-01-01'')]], articles = None,
            nb_sections = 1, nb_articles = 0\<rparr>"
  have b: "fst (build_tree_optimized chain12 ''C'') = Inr (Some ?p)"
    by code_simp
  have m: "map_of [(Some ''A'', ?sec)] (Some ''A'') = Some ?sec" by simp
  have g: "(11::nat) > 10" by simp
  from depth_bound_honored [of chain12 "''C''" ?p "[(Some ''A'', ?sec)]" "Some ''A''" 11 10 _ ?sec] b m g
  show ?thesis
    by (simp add: list_all_iff list_truthy_def)
qed

lemma children_loop_sound:
  "children_loop a refs d md = Inr cs \<Longrightarrow> c \<in> set cs \<Longrightarrow>
   \<exists>ss \<in> set refs. en_vigueur ss \<and>
     (\<exists>cid. dict_item ss ''id'' = Inr cid \<and> build_node_from_memory a cid d md = Inr (Some c))"
  by (induction refs arbitrary: cs) (auto split: if_splits sum.splits option.splits)

lemma articles_loop_sound:
  "x \<in> set (articles_loop arts []) \<Longrightarrow> \<exists>art \<in> set arts. en_vigueur art \<and> x = article_of art"
proof -
  assume "x \<in> set (articles_loop arts [])"
  then have "x \<in> set (take 500 (map article_of (filter en_vigueur arts)))"
    using articles_loop_take [of "[]" arts] by simp
  then have "x \<in> set (map article_of (filter en_vigueur arts))"
    by (rule in_set_takeD)
  then show ?thesis by auto
qed

lemma expired_not_en_vigueur:
  "now \<le> ''2999-01-01'' \<Longrightarrow> spec_expired now x \<Longrightarrow> \<not> en_vigueur x"
  by (auto simp: spec_expired_def en_vigueur_def dict_get_def dict_get_default_def
      split: option.splits)

lemma build_node_children:
  assumes "build_node_from_memory a s d md = Inr (Some nd)"
    and "map_of a s = Some sec"
  shows "children_loop a (the_list (sous_sections sec)) (d + 1) md = Inr (n_children nd)
         \<or> n_children nd = []"
  using assms
  by (subst (asm) build_node_from_memory.simps) (auto split: if_splits sum.splits)

text \<open>
  C6 (validity filtering). Every child node of an output node was built from a child
  reference of the section whose \<open>fin\<close> is the sentinel \<open>2999-01-01\<close> (also when the
  key is absent) or whose \<open>etat\<close> is \<open>VIGUEUR\<close>, and every output article comes from
  such an article reference. Hence, for any date \<open>now\<close> up to the sentinel, a reference
  whose end date is before \<open>now\<close> and whose state is not \<open>VIGUEUR\<close> contributes nothing
  to the output.
\<close>

theorem validity_filtering:
  assumes "build_node_from_memory all_sections section_id current_depth max_depth = Inr (Some nd)"
    and "map_of all_sections section_id = Some sec"
    and "now \<le> ''2999-01-01''"
  shows "(\<forall>c \<in> set (n_children nd). \<exists>ss \<in> set (the_list (sous_sections sec)).
            (dict_get_default ss ''fin'' (Some ''2999-01-01'') = Some ''2999-01-01''
               \<or> dict_get ss ''etat'' = Some ''VIGUEUR'')
            \<and> \<not> spec_expired now ss \<and>
            (\<exists>cid. dict_item ss ''id'' = Inr cid \<and>
               build_node_from_memory all_sections cid (current_depth + 1) max_depth = Inr (Some c)))
       \<and> (\<forall>x \<in> set (n_articles nd). \<exists>art \<in> set (the_list (articles sec)).
            (dict_get_default art ''fin'' (Some ''2999-01-01'') = Some ''2999-01-01''
               \<or> dict_get art ''etat'' = Some ''VIGUEUR'')
            \<and> \<not> spec_expired now art \<and> x = article_of art)"
proof (intro conjI ballI)
  fix c assume c: "c \<in> set (n_children nd)"
  with build_node_children [OF assms(1,2)]
  have "children_loop all_sections (the_list (sous_sections sec)) (current_depth + 1) max_depth
          = Inr (n_children nd)" by auto
  from children_loop_sound [OF this c] obtain ss where
    ss: "ss \<in> set (the_list (sous_sections sec))" "en_vigueur ss"
      "\<exists>cid. dict_item ss ''id'' = Inr cid \<and>
         build_node_from_memory all_sections cid (current_depth + 1) max_depth = Inr (Some c)"
    by blast
  from ss(2) expired_not_en_vigueur [OF assms(3)] have "\<not> spec_expired now ss" by blast
  with ss show "\<exists>ss \<in> set (the_list (sous_sections sec)).
            (dict_get_default ss ''fin'' (Some ''2999-01-01'') = Some ''2999-01-01''
               \<or> dict_get ss ''etat'' = Some ''VIGUEUR'')
            \<and> \<not> spec_expired now ss \<and>
            (\<exists>cid. dict_item ss ''id'' = Inr cid \<and>
               build_node_from_memory all_sections cid (current_depth + 1) max_depth = Inr (Some c))"
    unfolding en_vigueur_def by blast
next
  fix x assume x: "x \<in> set (n_articles nd)"
  with build_node_articles [OF assms(1,2)]
  have "x \<in> set (articles_loop (the_list (articles sec)) [])"
    by (auto split: if_splits)
  from articles_loop_sound [OF this] obtain art where
    art: "art \<in> set (the_list (articles sec))" "en_vigueur art" "x = article_of art" by blast
  from art(2) expired_not_en_vigueur [OF assms(3)] have "\<not> spec_expired now art" by blast
  with art show "\<exists>art \<in> set (the_list (articles sec)).
            (dict_get_default art ''fin'' (Some ''2999-01-01'') = Some ''2999-01-01''
               \<or> dict_get art ''etat'' = Some ''VIGUEUR'')
            \<and> \<not> spec_expired now art \<and> x = article_of art"
    unfolding en_vigueur_def by blast
qed

theorem validity_filtering_witness:
  "build_node_from_memory mixed_sections (Some ''S'') 1 10 =
     Inr (Some (Node (Some ''S'') None 3 2
        [Node (Some ''K1'') None 0 0 [] [], Node (Some ''K3'') None 0 0 [] []]
        [\<lparr>a_id = Some ''A2'', a_num = None, a_titre = Some []\<rparr>]))
   \<and> map_of mixed_sections (Some ''S'') = Some (snd (hd mixed_sections))
   \<and> ''2026-11-04'' \<le> ''2999-01-01''
   \<and> spec_expired ''2026-11-04'' (dated_ref ''K2'' ''2020-01-01'' ''ABROGE'')
   \<and> \<not> en_vigueur (dated_ref ''K2'' ''2020-01-01'' ''ABROGE'')
   \<and> list_ex (\<lambda>ss. en_vigueur ss \<and> \<not> spec_expired ''2026-11-04'' ss
        \<and> dict_item ss ''id'' = Inr (Some ''K3''))
       (the_list (sous_sections (snd (hd mixed_sections))))"
proof -
  let ?nd = "Node (Some ''S'') None 3 2
        [Node (Some ''K1'') None 0 0 [] [], Node (Some ''K3'') None 0 0 [] []]
        [\<lparr>a_id = Some ''A2'', a_num = None, a_titre = Some []\<rparr>]"
  have b: "build_node_from_memory mixed_sections (Some ''S'') 1 10 = Inr (Some ?nd)"
    by code_simp
  have m: "map_of mixed_sections (Some ''S'') = Some (snd (hd mixed_sections))"
    by (simp add: mixed_sections_def)
  have n: "''2026-11-04'' \<le> ''2999-01-01''" by simp
  have e: "spec_expired ''2026-11-04'' (dated_ref ''K2'' ''2020-01-01'' ''ABROGE'')"
    by (simp add: spec_expired_def dated_ref_def dict_get_def)
  have k3: "list_ex (\<lambda>ss. en_vigueur ss \<and> \<not> spec_expired ''2026-11-04'' ss
        \<and> dict_item ss ''id'' = Inr (Some ''K3''))
       (the_list (sous_sections (snd (hd mixed_sections))))"
    by (simp add: mixed_sections_def the_list_def dated_ref_def en_vigueur_def spec_expired_def
        dict_get_def dict_get_default_def dict_item_def)
  have ne: "\<not> en_vigueur (dated_ref ''K2'' ''2020-01-01'' ''ABROGE'')"
    by (rule expired_not_en_vigueur [OF n e])
  from validity_filtering [OF b m n] b m n e k3 ne show ?thesis
    by simp
qed

text \<open>
  C9 as stated fails: the assembly keeps no set of ids in progress. On a section that
  lists itself as a child, the call returns normally, with the section nested in itself
  down to level 10; no error reports the revisit.
\<close>

theorem cycle_guard_counterexample:
  "build_node_from_memory cyclic_sections (Some ''A'') 1 10 =
     Inr (Some (Node (Some ''A'') None 1 0 [Node (Some ''A'') None 1 0 [Node (Some ''A'') None 1 0 [Node (Some ''A'') None 1 0 [Node (Some ''A'') None 1 0 [Node (Some ''A'') None 1 0 [Node (Some ''A'') None 1 0 [Node (Some ''A'') None 1 0 [Node (Some ''A'') None 1 0 [Node (Some ''A'') None 1 0 [] []] []] []] []] []] []] []] []] []] []))"
  by code_simp

lemma no_error_aux:
  assumes ids: "\<forall>(k, sec) \<in> set a. \<forall>ss \<in> set (the_list (sous_sections sec)).
                  en_vigueur ss \<longrightarrow> map_of ss ''id'' \<noteq> None"
  shows "\<exists>r. build_node_from_memory a s d md = Inr r"
    and "(\<forall>ss \<in> set refs. en_vigueur ss \<longrightarrow> map_of ss ''id'' \<noteq> None)
         \<longrightarrow> (\<exists>cs. children_loop a refs d' md' = Inr cs)"
  using ids
proof (induction a s d md and a refs d' md' rule: build_node_from_memory_children_loop.induct)
  case (1 all_sections section_id current_depth max_depth)
  show ?case
  proof (cases "map_of all_sections section_id")
    case None
    then show ?thesis by (subst build_node_from_memory.simps) simp
  next
    case (Some sec)
    then have "(section_id, sec) \<in> set all_sections" by (rule map_of_SomeD)
    with "1.prems" have refs: "\<forall>ss \<in> set (the_list (sous_sections sec)).
                  en_vigueur ss \<longrightarrow> map_of ss ''id'' \<noteq> None" by auto
    show ?thesis
    proof (cases "\<not> current_depth > max_depth \<and> current_depth < max_depth \<and> list_truthy (sous_sections sec)")
      case True
      with "1.IH" [OF _ Some _ "1.prems"] refs obtain cs where
        "children_loop all_sections (the_list (sous_sections sec)) (current_depth + 1) max_depth = Inr cs"
        by auto
      with Some True show ?thesis
        by (subst build_node_from_memory.simps) simp
    next
      case False
      with Some show ?thesis
        by (subst build_node_from_memory.simps) auto
    qed
  qed
next
  case (2 all_sections child_depth max_depth)
  then show ?case by simp
next
  case (3 all_sections ss rest child_depth max_depth)
  show ?case
  proof (intro impI)
    assume h: "\<forall>ss \<in> set (ss # rest). en_vigueur ss \<longrightarrow> map_of ss ''id'' \<noteq> None"
    show "\<exists>cs. children_loop all_sections (ss # rest) child_depth max_depth = Inr cs"
    proof (cases "en_vigueur ss")
      case False
      with "3.IH"(3) "3.prems" h show ?thesis by auto
    next
      case True
      with h obtain cid where cid: "dict_item ss ''id'' = Inr cid"
        by (auto simp: dict_item_def)
      from "3.IH"(1) [OF True cid "3.prems"] obtain child where
        child: "build_node_from_memory all_sections cid child_depth max_depth = Inr child" by auto
      from "3.IH"(2) [OF True cid child "3.prems"] h obtain cs where
        "children_loop all_sections rest child_depth max_depth = Inr cs" by auto
      with True cid child show ?thesis by simp
    qed
  qed
qed

text \<open>
  C9, amended. On every dictionary of loaded sections, cyclic ones included, the assembly
  returns: the recursion is bounded by \<open>max_depth\<close>, so a cycle is unrolled down to that
  level. It raises no error as long as every child reference in force has an \<open>id\<close> key
  (the only error of the assembly is the \<open>KeyError\<close> of \<open>ss["id"]\<close>), and the node it
  returns reaches no level beyond \<open>max_depth\<close>.
\<close>

theorem cycle_unrolled_without_error:
  assumes "\<forall>(k, sec) \<in> set all_sections. \<forall>ss \<in> set (the_list (sous_sections sec)).
             en_vigueur ss \<longrightarrow> map_of ss ''id'' \<noteq> None"
  shows "\<exists>r. build_node_from_memory all_sections section_id current_depth max_depth = Inr r
           \<and> (\<forall>nd. r = Some nd \<longrightarrow> current_depth + node_depth nd \<le> max_depth + 1)"
proof -
  from no_error_aux(1) [OF assms] obtain r where
    r: "build_node_from_memory all_sections section_id current_depth max_depth = Inr r" by blast
  with depth_bound_aux(1) [of all_sections section_id current_depth max_depth] show ?thesis
    by auto
qed

theorem cycle_unrolled_without_error_witness:
  "list_all (\<lambda>(k, sec). list_all (\<lambda>ss. map_of ss ''id'' \<noteq> None) (the_list (sous_sections sec)))
     cyclic_sections
   \<and> \<not> isl (build_node_from_memory cyclic_sections (Some ''A'') 1 10)
   \<and> map_option node_depth (projr (build_node_from_memory cyclic_sections (Some ''A'') 1 10))
       = Some 10"
proof -
  have h: "\<forall>(k, sec) \<in> set cyclic_sections. \<forall>ss \<in> set (the_list (sous_sections sec)).
             en_vigueur ss \<longrightarrow> map_of ss ''id'' \<noteq> None"
    by (simp add: cyclic_sections_def the_list_def child_ref_def)
  have d: "map_option node_depth (projr (build_node_from_memory cyclic_sections (Some ''A'') 1 10))
       = Some 10"
    by code_simp
  from cycle_unrolled_without_error [OF h, of "Some ''A''" 1 10] d show ?thesis
    by (auto simp: cyclic_sections_def the_list_def child_ref_def)
qed

lemma root_ids_empty_depth0:
  assumes "\<forall>d \<in> set documents. d_source d = ''LEGI'' \<and> d_doctype d = ''section''
             \<and> m_parent (d_meta d) = Some code_id \<longrightarrow> tree_depth_le documents 0 (m_id (d_meta d))"
  shows "root_query documents code_id = []"
proof (rule ccontr)
  assume "root_query documents code_id \<noteq> []"
  then obtain r where "r \<in> set (root_query documents code_id)" by (cases "root_query documents code_id") auto
  from select_sections_mem [OF this [unfolded root_query_def]] assms show False by auto
qed

lemma initial_frontier_depth:
  assumes dep: "\<forall>d \<in> set documents. d_source d = ''LEGI'' \<and> d_doctype d = ''section''
             \<and> m_parent (d_meta d) = Some code_id \<longrightarrow> tree_depth_le documents (Suc k) (m_id (d_meta d))"
    and i: "i \<in> fold collect_subsection_ids (map snd (rows_to_dict (root_query documents code_id)))
                (set (map sec_id (root_query documents code_id)))
              - set (map sec_id (root_query documents code_id))"
  shows "tree_depth_le documents k i"
proof -
  from i fold_collect_mem [of i "map snd (rows_to_dict (root_query documents code_id))"]
  obtain sec ss where sec: "sec \<in> set (map snd (rows_to_dict (root_query documents code_id)))"
    and ss: "ss \<in> set (the_list (sous_sections sec))" and id: "i = dict_get ss ''id''" "truthy i"
    by blast
  from sec rows_to_dict_values [of "root_query documents code_id"]
  have "sec \<in> set (select_sections (\<lambda>d. m_parent (d_meta d) = Some code_id) documents)"
    by (auto simp: root_query_def)
  from fetched_children_depth [OF this _ ss] dep id show ?thesis by blast
qed

lemma new_ids_loop_unloaded: "i \<in> new_ids_loop all_sections new_values \<Longrightarrow> map_of all_sections i = None"
  using new_ids_loop_mem by blast

text \<open>
  C4 (wave-count bound). A build sends at most 11 section queries: the root query and at
  most \<open>max_waves = 10\<close> wave queries, one per wave. When the sections under the code
  form a tree of depth at most \<open>D\<close>, it sends at most \<open>D + 1\<close>, whatever the number of
  sections. The wave loop stops at once on an empty frontier, and the frontier it
  computes for the next wave holds no id that is already loaded.
\<close>

theorem wave_count_bound:
  "length (filter is_section_fetch (snd (build_tree_optimized documents code_id))) \<le> 11
   \<and> ((\<forall>d \<in> set documents. d_source d = ''LEGI'' \<and> d_doctype d = ''section''
          \<and> m_parent (d_meta d) = Some code_id \<longrightarrow> tree_depth_le documents D (m_id (d_meta d)))
        \<longrightarrow> length (filter is_section_fetch (snd (build_tree_optimized documents code_id))) \<le> D + 1)
   \<and> (fst (build_tree_optimized documents code_id) = Inr (Some p) \<longrightarrow>
        p_nb_waves p \<le> 10
        \<and> length (filter is_section_fetch (snd (build_tree_optimized documents code_id)))
            = 1 + p_nb_waves p)
   \<and> wave_loop documents all_sections {} wave_num sent = (all_sections, wave_num, sent)
   \<and> (\<forall>i \<in> new_ids_loop all_sections new_values. map_of all_sections i = None)"
proof (intro conjI)
  let ?roots = "root_query documents code_id"
  let ?rem = "fold collect_subsection_ids (map snd (rows_to_dict ?roots)) (set (map sec_id ?roots))
              - set (map sec_id ?roots)"
  let ?n = "length (filter is_section_fetch (snd (build_tree_optimized documents code_id)))"
  show "wave_loop documents all_sections {} wave_num sent = (all_sections, wave_num, sent)"
    by (subst wave_loop.simps) simp
  show "\<forall>i \<in> new_ids_loop all_sections new_values. map_of all_sections i = None"
    using new_ids_loop_unloaded by blast
  show "?n \<le> 11"
  proof (cases "header_query documents code_id")
    case None
    then show ?thesis by (simp add: build_tree_not_found)
  next
    case (Some h)
    from build_tree_parts [OF Some] obtain all' w' sent' where
      w: "wave_loop documents (rows_to_dict ?roots) ?rem 0 [HeaderQuery code_id, RootQuery code_id]
            = (all', w', sent')"
      and s: "snd (build_tree_optimized documents code_id) = sent'" by blast
    from wave_loop_counts [OF w] s show ?thesis by (simp add: max_waves_def)
  qed
  show "fst (build_tree_optimized documents code_id) = Inr (Some p) \<longrightarrow>
        p_nb_waves p \<le> 10 \<and> ?n = 1 + p_nb_waves p"
  proof
    assume b: "fst (build_tree_optimized documents code_id) = Inr (Some p)"
    show "p_nb_waves p \<le> 10 \<and> ?n = 1 + p_nb_waves p"
    proof (cases "header_query documents code_id")
      case None
      with b show ?thesis by (simp add: build_tree_not_found)
    next
      case (Some h)
      from build_tree_parts [OF Some] b obtain all' w' sent' where
        w: "wave_loop documents (rows_to_dict ?roots) ?rem 0 [HeaderQuery code_id, RootQuery code_id]
              = (all', w', sent')"
        and s: "snd (build_tree_optimized documents code_id) = sent'"
        and p: "p_nb_waves p = w'" by blast
      from wave_loop_counts [OF w] s p show ?thesis by (simp add: max_waves_def)
    qed
  qed
  show "(\<forall>d \<in> set documents. d_source d = ''LEGI'' \<and> d_doctype d = ''section''
          \<and> m_parent (d_meta d) = Some code_id \<longrightarrow> tree_depth_le documents D (m_id (d_meta d)))
        \<longrightarrow> ?n \<le> D + 1"
  proof
    assume dep: "\<forall>d \<in> set documents. d_source d = ''LEGI'' \<and> d_doctype d = ''section''
          \<and> m_parent (d_meta d) = Some code_id \<longrightarrow> tree_depth_le documents D (m_id (d_meta d))"
    show "?n \<le> D + 1"
    proof (cases "header_query documents code_id")
      case None
      then show ?thesis by (simp add: build_tree_not_found)
    next
      case (Some h)
      from build_tree_parts [OF Some] obtain all' w' sent' where
        w: "wave_loop documents (rows_to_dict ?roots) ?rem 0 [HeaderQuery code_id, RootQuery code_id]
              = (all', w', sent')"
        and s: "snd (build_tree_optimized documents code_id) = sent'" by blast
      have n: "?n = 1 + w'" using wave_loop_counts [OF w] s by simp
      show ?thesis
      proof (cases D)
        case 0
        with dep have "?roots = []" by (intro root_ids_empty_depth0) simp
        then have "?rem = {}" by (simp add: rows_to_dict_def)
        with w have "w' = 0" by (subst (asm) wave_loop.simps) simp
        with n show ?thesis by simp
      next
        case (Suc k)
        with dep have "\<forall>i \<in> ?rem. tree_depth_le documents k i"
          using initial_frontier_depth [of documents code_id k] by blast
        from wave_loop_depth [OF this w] n Suc show ?thesis by simp
      qed
    qed
  qed
qed

theorem wave_count_bound_witness:
  "tree_depth_le tree2 2 (Some ''S1'')
   \<and> build_tree_optimized tree2 ''C'' =
      (Inr (Some \<lparr>p_code_id = ''C'', p_titre = ''Code'', p_nature = ''CODE'',
          p_tree = [Node (Some ''S1'') None 0 0
            [Node (Some ''A'') None 0 0 [] [], Node (Some ''B'') None 0 0 [] [],
             Node (Some ''D'') None 0 0 [] []] []],
          p_nb_sections_loaded = 4, p_nb_waves = 1\<rparr>),
       [HeaderQuery ''C'', RootQuery ''C'', WaveQuery {Some ''A'', Some ''B'', Some ''D''}])
   \<and> length (filter is_section_fetch (snd (build_tree_optimized tree2 ''C''))) = 2
   \<and> length (filter is_section_fetch (snd (build_tree_optimized tree2 ''C''))) \<le> 2 + 1"
proof -
  have dep: "\<forall>d \<in> set tree2. d_source d = ''LEGI'' \<and> d_doctype d = ''section''
          \<and> m_parent (d_meta d) = Some ''C'' \<longrightarrow> tree_depth_le tree2 2 (m_id (d_meta d))"
    by code_simp
  have d1: "tree_depth_le tree2 2 (Some ''S1'')" by code_simp
  have b: "build_tree_optimized tree2 ''C'' =
      (Inr (Some \<lparr>p_code_id = ''C'', p_titre = ''Code'', p_nature = ''CODE'',
          p_tree = [Node (Some ''S1'') None 0 0
            [Node (Some ''A'') None 0 0 [] [], Node (Some ''B'') None 0 0 [] [],
             Node (Some ''D'') None 0 0 [] []] []],
          p_nb_sections_loaded = 4, p_nb_waves = 1\<rparr>),
       [HeaderQuery ''C'', RootQuery ''C'', WaveQuery {Some ''A'', Some ''B'', Some ''D''}])"
    by code_simp
  from wave_count_bound [of tree2 "''C''" 2] dep d1 b show ?thesis
    by simp
qed

lemma distinct_dict_set: "distinct (map fst d) \<Longrightarrow> distinct (map fst (dict_set d k v))"
  by (simp add: dict_set_def distinct_update)

lemma distinct_rows_fold:
  "distinct (map fst acc) \<Longrightarrow>
   distinct (map fst (fold (\<lambda>row acc. dict_set acc (sec_id row) row) rows acc))"
  by (induction rows arbitrary: acc) (auto simp: distinct_dict_set)

lemma distinct_rows_to_dict: "distinct (map fst (rows_to_dict rows))"
  using distinct_rows_fold [of "[]" rows] by (simp add: rows_to_dict_def)

lemma distinct_dict_update: "distinct (map fst d) \<Longrightarrow> distinct (map fst (dict_update d e))"
  unfolding dict_update_def
  by (induction e arbitrary: d) (auto simp: distinct_dict_set)

lemma wave_loop_distinct:
  "distinct (map fst all_sections) \<Longrightarrow>
   distinct (map fst (fst (wave_loop documents all_sections remaining_ids wave_num sent)))"
proof (induction documents all_sections remaining_ids wave_num sent rule: wave_loop.induct)
  case (1 documents all_sections remaining_ids wave_num sent)
  show ?case
  proof (cases "remaining_ids \<noteq> {} \<and> wave_num < max_waves")
    case False
    with "1.prems" show ?thesis by (subst wave_loop.simps) auto
  next
    case True
    let ?ns = "rows_to_dict (wave_query documents remaining_ids)"
    let ?all = "dict_update all_sections ?ns"
    have "distinct (map fst ?all)" using "1.prems" by (rule distinct_dict_update)
    from "1.IH" [OF True refl refl refl this] True show ?thesis
      by (subst wave_loop.simps) (simp add: Let_def)
  qed
qed

lemma select_sections_complete:
  assumes "d \<in> set documents" "d_source d = ''LEGI''" "d_doctype d = ''section''" "cond d"
  shows "m_id (d_meta d) \<in> set (map sec_id (select_sections cond documents))"
  unfolding select_sections_ids mem_ordered_ids using assms by auto

text \<open>
  C10 (latest-version deduplication). The root query and the wave query return at most
  one row per metadata id, and a row for every id that has a matching document. The row
  returned for an id is built from a matching document whose \<open>date_debut\<close> (read as
  \<open>1900-01-01\<close> when missing) is greatest among the matching documents of that id; for
  the wave query these are all the section rows of the id. The dictionary of loaded
  sections has one entry per id.
\<close>

theorem latest_version_dedup:
  "distinct (map sec_id (root_query documents code_id))
   \<and> distinct (map sec_id (wave_query documents ids))
   \<and> (\<forall>r \<in> set (root_query documents code_id). \<exists>d \<in> set documents.
         d_source d = ''LEGI'' \<and> d_doctype d = ''section'' \<and> m_parent (d_meta d) = Some code_id
         \<and> r = section_row d
         \<and> (\<forall>d' \<in> set documents. d_source d' = ''LEGI'' \<and> d_doctype d' = ''section''
               \<and> m_parent (d_meta d') = Some code_id \<and> m_id (d_meta d') = m_id (d_meta d)
               \<longrightarrow> date_key d' \<le> date_key d))
   \<and> (\<forall>r \<in> set (wave_query documents ids). \<exists>d \<in> set documents.
         d_source d = ''LEGI'' \<and> d_doctype d = ''section'' \<and> m_id (d_meta d) \<in> ids
         \<and> r = section_row d
         \<and> (\<forall>d' \<in> set documents. d_source d' = ''LEGI'' \<and> d_doctype d' = ''section''
               \<and> m_id (d_meta d') = m_id (d_meta d) \<longrightarrow> date_key d' \<le> date_key d))
   \<and> (\<forall>d \<in> set documents. d_source d = ''LEGI'' \<and> d_doctype d = ''section''
         \<and> m_parent (d_meta d) = Some code_id
         \<longrightarrow> m_id (d_meta d) \<in> set (map sec_id (root_query documents code_id)))
   \<and> (\<forall>d \<in> set documents. d_source d = ''LEGI'' \<and> d_doctype d = ''section''
         \<and> m_id (d_meta d) \<noteq> None \<and> m_id (d_meta d) \<in> ids
         \<longrightarrow> m_id (d_meta d) \<in> set (map sec_id (wave_query documents ids)))
   \<and> distinct (map fst (fst (wave_loop documents (rows_to_dict (root_query documents code_id))
                                 remaining_ids wave_num sent)))"
proof (intro conjI ballI impI)
  show "distinct (map sec_id (root_query documents code_id))"
    unfolding root_query_def select_sections_ids by (rule distinct_ordered_ids)
  show "distinct (map sec_id (wave_query documents ids))"
    unfolding wave_query_def select_sections_ids by (rule distinct_ordered_ids)
  show "distinct (map fst (fst (wave_loop documents (rows_to_dict (root_query documents code_id))
                                 remaining_ids wave_num sent)))"
    by (rule wave_loop_distinct [OF distinct_rows_to_dict])
next
  fix r assume "r \<in> set (root_query documents code_id)"
  from select_sections_mem [OF this [unfolded root_query_def]]
  show "\<exists>d \<in> set documents.
         d_source d = ''LEGI'' \<and> d_doctype d = ''section'' \<and> m_parent (d_meta d) = Some code_id
         \<and> r = section_row d
         \<and> (\<forall>d' \<in> set documents. d_source d' = ''LEGI'' \<and> d_doctype d' = ''section''
               \<and> m_parent (d_meta d') = Some code_id \<and> m_id (d_meta d') = m_id (d_meta d)
               \<longrightarrow> date_key d' \<le> date_key d)" .
next
  fix r assume "r \<in> set (wave_query documents ids)"
  from select_sections_mem [OF this [unfolded wave_query_def]] obtain d where
    d: "d \<in> set documents" "d_source d = ''LEGI''" "d_doctype d = ''section''"
      "m_id (d_meta d) \<noteq> None" "m_id (d_meta d) \<in> ids" "r = section_row d"
    and mx: "\<forall>d' \<in> set documents. d_source d' = ''LEGI'' \<and> d_doctype d' = ''section''
        \<and> (m_id (d_meta d') \<noteq> None \<and> m_id (d_meta d') \<in> ids)
        \<and> m_id (d_meta d') = m_id (d_meta d) \<longrightarrow> date_key d' \<le> date_key d"
    by blast
  from d(4,5) mx have "\<forall>d' \<in> set documents. d_source d' = ''LEGI'' \<and> d_doctype d' = ''section''
               \<and> m_id (d_meta d') = m_id (d_meta d) \<longrightarrow> date_key d' \<le> date_key d"
    by auto
  with d show "\<exists>d \<in> set documents.
         d_source d = ''LEGI'' \<and> d_doctype d = ''section'' \<and> m_id (d_meta d) \<in> ids
         \<and> r = section_row d
         \<and> (\<forall>d' \<in> set documents. d_source d' = ''LEGI'' \<and> d_doctype d' = ''section''
               \<and> m_id (d_meta d') = m_id (d_meta d) \<longrightarrow> date_key d' \<le> date_key d)"
    by blast
next
  fix d assume "d \<in> set documents" "d_source d = ''LEGI'' \<and> d_doctype d = ''section''
         \<and> m_parent (d_meta d) = Some code_id"
  then show "m_id (d_meta d) \<in> set (map sec_id (root_query documents code_id))"
    unfolding root_query_def by (intro select_sections_complete) auto
next
  fix d assume "d \<in> set documents" "d_source d = ''LEGI'' \<and> d_doctype d = ''section''
         \<and> m_id (d_meta d) \<noteq> None \<and> m_id (d_meta d) \<in> ids"
  then show "m_id (d_meta d) \<in> set (map sec_id (wave_query documents ids))"
    unfolding wave_query_def by (intro select_sections_complete) auto
qed

theorem latest_version_dedup_witness:
  "root_query versions ''C'' =
     [section_row (section_version ''r2'' ''S1'' ''C'' (Some ''2020-01-01'') ''new''),
      section_row (section_version ''r4'' ''S2'' ''C'' None ''other'')]
   \<and> wave_query versions {Some ''S1''} =
     [section_row (section_version ''r2'' ''S1'' ''C'' (Some ''2020-01-01'') ''new'')]
   \<and> date_key (section_version ''r3'' ''S1'' ''C'' None ''undated'') = ''1900-01-01''
   \<and> distinct (map sec_id (root_query versions ''C''))
   \<and> distinct (map sec_id (wave_query versions {Some ''S1''}))"
proof -
  have r: "root_query versions ''C'' =
     [section_row (section_version ''r2'' ''S1'' ''C'' (Some ''2020-01-01'') ''new''),
      section_row (section_version ''r4'' ''S2'' ''C'' None ''other'')]"
    by code_simp
  have w: "wave_query versions {Some ''S1''} =
     [section_row (section_version ''r2'' ''S1'' ''C'' (Some ''2020-01-01'') ''new'')]"
    by code_simp
  have k: "date_key (section_version ''r3'' ''S1'' ''C'' None ''undated'') = ''1900-01-01''"
    by code_simp
  from latest_version_dedup [of versions "''C''" "{Some ''S1''}"] r w k show ?thesis
    by simp
qed

section \<open>Properties of the upsert\<close>

lemma upsert_row_ids:
  "\<exists>d \<in> set documents. d_id d = d_id row \<Longrightarrow>
   map d_id (upsert_row documents row) = map d_id documents"
  by (auto simp: upsert_row_def)

lemma upsert_row_distinct:
  "distinct (map d_id documents) \<Longrightarrow> distinct (map d_id (upsert_row documents row))"
proof (cases "\<exists>d \<in> set documents. d_id d = d_id row")
  case True
  assume "distinct (map d_id documents)"
  with upsert_row_ids [OF True] show ?thesis by simp
next
  case False
  assume "distinct (map d_id documents)"
  with False show ?thesis by (auto simp: upsert_row_def)
qed

lemma overwritten_row:
  fixes d row :: document
  shows "d_id d = d_id row \<Longrightarrow>
   d\<lparr>d_source := d_source row, d_doctype := d_doctype row, d_path := d_path row,
     d_updated_at := d_updated_at row, d_sha256 := d_sha256 row, d_meta := d_meta row,
     d_content_xml := d_content_xml row, d_content_text := d_content_text row\<rparr> = row"
  by (cases d, cases row) simp

lemma upsert_row_map:
  "upsert_row documents row =
     (if \<exists>d \<in> set documents. d_id d = d_id row
      then map (\<lambda>d. if d_id d = d_id row then row else d) documents
      else documents @ [row])"
  by (auto simp: upsert_row_def overwritten_row)

lemma filter_distinct_key:
  "distinct (map f xs) \<Longrightarrow> x \<in> set xs \<Longrightarrow> filter (\<lambda>y. f y = f x) xs = [x]"
proof (induction xs)
  case Nil
  then show ?case by simp
next
  case (Cons a xs)
  show ?case
  proof (cases "a = x")
    case True
    with Cons.prems have "\<forall>y \<in> set xs. f y \<noteq> f x" by (force simp: image_iff)
    then have "filter (\<lambda>y. f y = f x) xs = []" by (simp add: filter_empty_conv)
    with True show ?thesis by simp
  next
    case False
    with Cons.prems have x: "x \<in> set xs" and "f a \<noteq> f x" by auto
    with Cons.IH Cons.prems show ?thesis by simp
  qed
qed

lemma upsert_row_in: "row \<in> set (upsert_row documents row)"
  by (auto simp: upsert_row_map)

lemma upsert_row_one:
  assumes "distinct (map d_id documents)"
  shows "filter (\<lambda>d. d_id d = d_id row) (upsert_row documents row) = [row]"
  using filter_distinct_key [OF upsert_row_distinct [OF assms] upsert_row_in, of row] .

lemma upsert_row_others:
  "filter (\<lambda>d. d_id d \<noteq> d_id row) (upsert_row documents row)
   = filter (\<lambda>d. d_id d \<noteq> d_id row) documents"
proof -
  have "filter (\<lambda>d. d_id d \<noteq> d_id row) (map (\<lambda>d. if d_id d = d_id row then row else d) documents)
        = filter (\<lambda>d. d_id d \<noteq> d_id row) documents"
    by (induction documents) auto
  then show ?thesis by (simp add: upsert_row_map)
qed

lemma upsert_row_twice: "upsert_row (upsert_row documents row) row = upsert_row documents row"
proof -
  have ex: "\<exists>d \<in> set (upsert_row documents row). d_id d = d_id row"
    using upsert_row_in by blast
  have "map (\<lambda>d. if d_id d = d_id row then row else d) (upsert_row documents row)
        = upsert_row documents row"
    by (rule map_idI) (auto simp: upsert_row_map split: if_splits)
  with ex show ?thesis by (subst upsert_row_map) simp
qed

lemma upsert_row_length:
  "\<exists>d \<in> set documents. d_id d = d_id row \<Longrightarrow> length (upsert_row documents row) = length documents"
  by (simp add: upsert_row_map)

lemma fold_upsert_distinct:
  "distinct (map d_id documents) \<Longrightarrow>
   distinct (map d_id (fold (\<lambda>row acc. upsert_row acc row) rows documents))"
  by (induction rows arbitrary: documents) (auto simp: upsert_row_distinct)

lemma executemany_accepted:
  "\<forall>row \<in> set rows. \<not> row_refused row \<Longrightarrow>
   executemany documents rows = Inr (fold (\<lambda>row acc. upsert_row acc row) rows documents)"
  by (induction rows arbitrary: documents) simp_all

lemma executemany_refused:
  "\<exists>row \<in> set rows. row_refused row \<Longrightarrow> executemany documents rows = Inl DataError"
  by (induction rows arbitrary: documents) auto

lemma upsert_documents_accepted:
  "\<forall>row \<in> set rows. \<not> row_refused row \<Longrightarrow>
   upsert_documents documents rows = Inr (fold (\<lambda>row acc. upsert_row acc row) rows documents)"
  by (cases "rows = []") (simp_all add: upsert_documents_def executemany_accepted)

lemma upsert_documents_refused:
  "\<exists>row \<in> set rows. row_refused row \<Longrightarrow> upsert_documents documents rows = Inl DataError"
  by (cases "rows = []") (simp_all add: upsert_documents_def executemany_refused)

lemma upsert_documents_single:
  "\<not> row_refused row \<Longrightarrow> upsert_documents documents [row] = Inr (upsert_row documents row)"
  by (simp add: upsert_documents_def)

lemma upsert_documents_pair:
  "\<not> row_refused r1 \<Longrightarrow> \<not> row_refused r2 \<Longrightarrow>
   upsert_documents documents [r1, r2] = Inr (upsert_row (upsert_row documents r1) r2)"
  by (simp add: upsert_documents_def)

lemma last_upsert_wins:
  assumes "distinct (map d_id documents)" and "d_id r1 = d_id r2"
  shows "filter (\<lambda>d. d_id d = d_id r2) (upsert_row (upsert_row documents r1) r2) = [r2]"
    and "length (upsert_row (upsert_row documents r1) r2) = length (upsert_row documents r1)"
    and "filter (\<lambda>d. d_id d \<noteq> d_id r2) (upsert_row (upsert_row documents r1) r2)
         = filter (\<lambda>d. d_id d \<noteq> d_id r2) documents"
    and "distinct (map d_id (upsert_row (upsert_row documents r1) r2))"
proof -
  have d1: "distinct (map d_id (upsert_row documents r1))"
    using assms(1) by (rule upsert_row_distinct)
  show "filter (\<lambda>d. d_id d = d_id r2) (upsert_row (upsert_row documents r1) r2) = [r2]"
    using d1 by (rule upsert_row_one)
  have "\<exists>d \<in> set (upsert_row documents r1). d_id d = d_id r2"
    using upsert_row_in [of r1 documents] assms(2) by auto
  then show "length (upsert_row (upsert_row documents r1) r2) = length (upsert_row documents r1)"
    by (rule upsert_row_length)
  show "filter (\<lambda>d. d_id d \<noteq> d_id r2) (upsert_row (upsert_row documents r1) r2)
         = filter (\<lambda>d. d_id d \<noteq> d_id r2) documents"
    using upsert_row_others [of r2 "upsert_row documents r1"] upsert_row_others [of r1 documents]
      assms(2) by simp
  show "distinct (map d_id (upsert_row (upsert_row documents r1) r2))"
    using d1 by (rule upsert_row_distinct)
qed

text \<open>
  C1 as stated fails on "the later \<open>updated_at\<close> wins" in either order: the statement
  compares no timestamps. Two records of the article \<open>LEGIARTI000006797825\<close>, the one
  of the snapshot \<open>20260105-101010\<close> upserted first and the one of \<open>20260104-202823\<close>
  upserted after it, leave the row of the earlier snapshot.
\<close>

theorem later_updated_at_counterexample:
  "d_id (article_row ''20260104-202823'' ''aa'' [97])
     = d_id (article_row ''20260105-101010'' ''bb'' [98])
   \<and> d_updated_at (article_row ''20260104-202823'' ''aa'' [97])
       < d_updated_at (article_row ''20260105-101010'' ''bb'' [98])
   \<and> upsert_documents [] [article_row ''20260105-101010'' ''bb'' [98]]
       = Inr [article_row ''20260105-101010'' ''bb'' [98]]
   \<and> upsert_documents [article_row ''20260105-101010'' ''bb'' [98]]
         [article_row ''20260104-202823'' ''aa'' [97]]
       = Inr [article_row ''20260104-202823'' ''aa'' [97]]
   \<and> d_updated_at (article_row ''20260104-202823'' ''aa'' [97]) = ''20260104-202823''"
proof (intro conjI)
  show "d_id (article_row ''20260104-202823'' ''aa'' [97])
     = d_id (article_row ''20260105-101010'' ''bb'' [98])"
    by (simp add: article_row_def)
  show "d_updated_at (article_row ''20260104-202823'' ''aa'' [97])
       < d_updated_at (article_row ''20260105-101010'' ''bb'' [98])"
    by code_simp
  show "upsert_documents [] [article_row ''20260105-101010'' ''bb'' [98]]
       = Inr [article_row ''20260105-101010'' ''bb'' [98]]"
    by code_simp
  show "upsert_documents [article_row ''20260105-101010'' ''bb'' [98]]
         [article_row ''20260104-202823'' ''aa'' [97]]
       = Inr [article_row ''20260104-202823'' ''aa'' [97]]"
    by code_simp
  show "d_updated_at (article_row ''20260104-202823'' ''aa'' [97]) = ''20260104-202823''"
    by (simp add: article_row_def)
qed

text \<open>
  C1, amended. On a table whose ids are distinct (\<open>id\<close> is the key of \<open>documents\<close>) and
  for two records with the same id that the database accepts: upserting both, one after
  the other in either order or in one batch, leaves exactly one row with that id, equal
  in every column to the record upserted last, whatever the two \<open>updated_at\<close>, so the
  stored \<open>updated_at\<close> is that of the last upsert; upserting a record again changes
  nothing; the number of rows does not grow with the second upsert, rows with other ids
  are untouched, and no accepted batch ever makes two rows share an id.
\<close>

theorem idempotent_upsert:
  assumes "distinct (map d_id documents)" and "d_id r1 = d_id r2"
    and "\<not> row_refused r1" and "\<not> row_refused r2"
    and "\<forall>row \<in> set rows. \<not> row_refused row"
  shows "\<exists>t1 t12 t2 t21 t.
      upsert_documents documents [r1] = Inr t1 \<and> upsert_documents t1 [r2] = Inr t12
    \<and> upsert_documents documents [r2] = Inr t2 \<and> upsert_documents t2 [r1] = Inr t21
    \<and> upsert_documents documents [r1, r2] = Inr t12
    \<and> upsert_documents documents [r2, r1] = Inr t21
    \<and> filter (\<lambda>d. d_id d = d_id r2) t12 = [r2]
    \<and> filter (\<lambda>d. d_id d = d_id r1) t21 = [r1]
    \<and> map d_updated_at (filter (\<lambda>d. d_id d = d_id r2) t12) = [d_updated_at r2]
    \<and> map d_updated_at (filter (\<lambda>d. d_id d = d_id r1) t21) = [d_updated_at r1]
    \<and> upsert_documents t12 [r2] = Inr t12
    \<and> upsert_documents t2 [r2] = Inr t2
    \<and> length t12 = length t1
    \<and> filter (\<lambda>d. d_id d \<noteq> d_id r2) t12 = filter (\<lambda>d. d_id d \<noteq> d_id r2) documents
    \<and> distinct (map d_id t12) \<and> distinct (map d_id t21)
    \<and> upsert_documents documents rows = Inr t \<and> distinct (map d_id t)"
proof -
  let ?t1 = "upsert_row documents r1" and ?t2 = "upsert_row documents r2"
  let ?t12 = "upsert_row (upsert_row documents r1) r2"
  let ?t21 = "upsert_row (upsert_row documents r2) r1"
  let ?t = "fold (\<lambda>row acc. upsert_row acc row) rows documents"
  note a = last_upsert_wins [OF assms(1,2)]
  note b = last_upsert_wins [OF assms(1) assms(2) [symmetric]]
  have "upsert_documents documents [r1] = Inr ?t1" "upsert_documents ?t1 [r2] = Inr ?t12"
    "upsert_documents documents [r2] = Inr ?t2" "upsert_documents ?t2 [r1] = Inr ?t21"
    "upsert_documents documents [r1, r2] = Inr ?t12"
    "upsert_documents documents [r2, r1] = Inr ?t21"
    using assms(3,4) by (simp_all add: upsert_documents_single upsert_documents_pair)
  moreover have "filter (\<lambda>d. d_id d = d_id r2) ?t12 = [r2]"
    "filter (\<lambda>d. d_id d = d_id r1) ?t21 = [r1]"
    using a(1) b(1) by simp_all
  moreover have "upsert_documents ?t12 [r2] = Inr ?t12" "upsert_documents ?t2 [r2] = Inr ?t2"
    using assms(4) by (simp_all add: upsert_documents_single upsert_row_twice)
  moreover have "length ?t12 = length ?t1"
    "filter (\<lambda>d. d_id d \<noteq> d_id r2) ?t12 = filter (\<lambda>d. d_id d \<noteq> d_id r2) documents"
    "distinct (map d_id ?t12)" "distinct (map d_id ?t21)"
    using a(2,3,4) b(4) by simp_all
  moreover have "upsert_documents documents rows = Inr ?t"
    using assms(5) by (rule upsert_documents_accepted)
  moreover have "distinct (map d_id ?t)"
    using assms(1) by (rule fold_upsert_distinct)
  ultimately show ?thesis
    by (intro exI [of _ ?t1] exI [of _ ?t12] exI [of _ ?t2] exI [of _ ?t21] exI [of _ ?t]) simp
qed

theorem idempotent_upsert_witness:
  "distinct (map d_id [code_document ''LEGITEXT000006070721''])
   \<and> d_id (article_row ''20260104-202823'' ''aa'' [97])
       = d_id (article_row ''20260105-101010'' ''bb'' [98])
   \<and> \<not> row_refused (article_row ''20260104-202823'' ''aa'' [97])
   \<and> \<not> row_refused (article_row ''20260105-101010'' ''bb'' [98])
   \<and> upsert_documents [code_document ''LEGITEXT000006070721'']
        [article_row ''20260104-202823'' ''aa'' [97]]
      = Inr [code_document ''LEGITEXT000006070721'', article_row ''20260104-202823'' ''aa'' [97]]
   \<and> upsert_documents
        [code_document ''LEGITEXT000006070721'', article_row ''20260104-202823'' ''aa'' [97]]
        [article_row ''20260105-101010'' ''bb'' [98]]
      = Inr [code_document ''LEGITEXT000006070721'', article_row ''20260105-101010'' ''bb'' [98]]
   \<and> upsert_documents
        [code_document ''LEGITEXT000006070721'', article_row ''20260105-101010'' ''bb'' [98]]
        [article_row ''20260104-202823'' ''aa'' [97]]
      = Inr [code_document ''LEGITEXT000006070721'', article_row ''20260104-202823'' ''aa'' [97]]
   \<and> upsert_documents [code_document ''LEGITEXT000006070721'']
        [article_row ''20260104-202823'' ''aa'' [97], article_row ''20260105-101010'' ''bb'' [98]]
      = Inr [code_document ''LEGITEXT000006070721'', article_row ''20260105-101010'' ''bb'' [98]]"
proof -
  let ?c = "code_document ''LEGITEXT000006070721''"
  let ?r1 = "article_row ''20260104-202823'' ''aa'' [97]"
  let ?r2 = "article_row ''20260105-101010'' ''bb'' [98]"
  have d: "distinct (map d_id [?c])" by simp
  have e: "d_id ?r1 = d_id ?r2" by (simp add: article_row_def)
  have n1: "\<not> row_refused ?r1" by code_simp
  have n2: "\<not> row_refused ?r2" by code_simp
  have n: "\<forall>row \<in> set [?r1, ?r2]. \<not> row_refused row" using n1 n2 by simp
  have u1: "upsert_documents [?c] [?r1] = Inr [?c, ?r1]" by code_simp
  have u12: "upsert_documents [?c, ?r1] [?r2] = Inr [?c, ?r2]" by code_simp
  have u21: "upsert_documents [?c, ?r2] [?r1] = Inr [?c, ?r1]" by code_simp
  have ub: "upsert_documents [?c] [?r1, ?r2] = Inr [?c, ?r2]" by code_simp
  from idempotent_upsert [OF d e n1 n2 n] d e n1 n2 u1 u12 u21 ub show ?thesis
    by (intro conjI)
qed

section \<open>Properties of the document id\<close>

lemma find_upto_pred: "List.find P xs = Some k \<Longrightarrow> P k \<and> k \<in> set xs"
  by (induction xs) (auto split: if_splits)

lemma legi_id_match_at_sound:
  assumes "legi_id_match_at lo hi s = Some m"
  shows "\<exists>rest. s = m @ rest \<and> legi_id_shape lo hi m"
proof -
  have legi: "take 4 s = ''LEGI''"
  proof (rule ccontr)
    assume "take 4 s \<noteq> ''LEGI''"
    then have "legi_id_match_at lo hi s = None"
      by (simp only: legi_id_match_at_def if_False)
    with assms show False by simp
  qed
  let ?f = "List.find (\<lambda>k. letters_digits_at k (drop 4 s)) (rev [lo..<Suc hi])"
  have eq: "legi_id_match_at lo hi s =
      (case ?f of None \<Rightarrow> None | Some k \<Rightarrow> Some (take (4 + k + 12) s))"
    by (simp only: legi_id_match_at_def legi if_True refl)
  obtain k where f: "?f = Some k" and m: "m = take (4 + k + 12) s"
  proof (cases ?f)
    case None
    with eq assms show ?thesis by (simp only: option.simps)
  next
    case (Some k)
    with eq assms have "m = take (4 + k + 12) s" by (simp only: option.simps)
    with Some that show ?thesis by blast
  qed
  from find_upto_pred [OF f] have kin: "k \<in> set (rev [lo..<Suc hi])"
    and fit: "letters_digits_at k (drop 4 s)"
    by blast+
  from kin have k: "lo \<le> k" "k \<le> hi" by auto
  define us where "us = take k (drop 4 s)"
  define ds where "ds = take 12 (drop k (drop 4 s))"
  from fit have us: "length us = k" "list_all is_upper_az us"
    and ds: "length ds = 12" "list_all is_digit ds"
    unfolding letters_digits_at_def us_def ds_def by blast+
  have "take (4 + (k + 12)) s = take 4 s @ take (k + 12) (drop 4 s)"
    by (rule take_add)
  moreover have "take (k + 12) (drop 4 s) = us @ ds"
    unfolding us_def ds_def by (rule take_add)
  moreover have "4 + k + 12 = 4 + (k + 12)" by (rule add.assoc)
  ultimately have "take (4 + k + 12) s = take 4 s @ us @ ds"
    by (simp only:)
  with legi m have m': "m = ''LEGI'' @ us @ ds"
    by (simp only:)
  have s': "s = m @ drop (4 + k + 12) s" unfolding m by (rule append_take_drop_id [symmetric])
  from k us(1) have lo: "lo \<le> length us" and hi: "length us \<le> hi" by (simp_all only:)
  from m' lo hi us(2) ds have "legi_id_shape lo hi m"
    unfolding legi_id_shape_def by (intro exI conjI)
  with s' show ?thesis by (intro exI conjI)
qed

lemma legi_id_search_sound:
  "legi_id_search lo hi s = Some m \<Longrightarrow> \<exists>pre rest. s = pre @ m @ rest \<and> legi_id_shape lo hi m"
proof (induction s)
  case Nil
  then show ?case by simp
next
  case (Cons c cs)
  show ?case
  proof (cases "legi_id_match_at lo hi (c # cs)")
    case (Some m')
    with Cons.prems have "m' = m" by simp
    with legi_id_match_at_sound [OF Some] obtain rest where
      "c # cs = [] @ m @ rest" "legi_id_shape lo hi m" by auto
    then show ?thesis by (intro exI conjI)
  next
    case None
    with Cons.prems have "legi_id_search lo hi cs = Some m" by simp
    from Cons.IH [OF this] obtain pre rest where
      cs: "cs = pre @ m @ rest" and sh: "legi_id_shape lo hi m" by auto
    from cs have "c # cs = (c # pre) @ m @ rest" by simp
    with sh show ?thesis by (intro exI conjI)
  qed
qed

lemma find_not_None: "x \<in> set xs \<Longrightarrow> P x \<Longrightarrow> List.find P xs \<noteq> None"
  by (induction xs) auto

lemma legi_id_match_at_complete:
  assumes "legi_id_shape lo hi m"
  shows "legi_id_match_at lo hi (m @ rest) \<noteq> None"
proof -
  from assms obtain us ds where m: "m = ''LEGI'' @ us @ ds"
    and a: "lo \<le> length us" "length us \<le> hi" "list_all is_upper_az us"
    "length ds = 12" "list_all is_digit ds"
    unfolding legi_id_shape_def by auto
  let ?s = "''LEGI'' @ us @ ds @ rest"
  have t4: "take 4 ?s = ''LEGI''" by simp
  have d4: "drop 4 ?s = us @ ds @ rest" by simp
  have "letters_digits_at (length us) (us @ ds @ rest)"
    using a by (simp add: letters_digits_at_def)
  moreover have "length us \<in> set (rev [lo..<Suc hi])" using a by auto
  ultimately have "List.find (\<lambda>k. letters_digits_at k (us @ ds @ rest)) (rev [lo..<Suc hi]) \<noteq> None"
    by (rule find_not_None [rotated])
  then obtain k where
    f: "List.find (\<lambda>k. letters_digits_at k (us @ ds @ rest)) (rev [lo..<Suc hi]) = Some k"
    by auto
  have "legi_id_match_at lo hi ?s = Some (take (4 + k + 12) ?s)"
    by (simp only: legi_id_match_at_def t4 d4 f refl if_True option.simps)
  moreover have "m @ rest = ?s" unfolding m by simp
  ultimately show ?thesis by simp
qed

lemma legi_id_search_complete:
  assumes "legi_id_shape lo hi m"
  shows "legi_id_search lo hi (pre @ m @ rest) \<noteq> None"
proof (induction pre)
  case Nil
  from assms obtain c cs where m: "m = c # cs"
    unfolding legi_id_shape_def by auto
  from legi_id_match_at_complete [OF assms, of rest] show ?case
    unfolding m by (auto split: option.splits)
next
  case (Cons c pre)
  then show ?case by (auto split: option.splits)
qed

lemma legi_id_match_at_first:
  "c \<noteq> CHR ''L'' \<Longrightarrow> legi_id_match_at lo hi (c # cs) = None"
  by (simp add: legi_id_match_at_def)

lemma legi_id_search_skip:
  "CHR ''L'' \<notin> set t \<Longrightarrow> legi_id_search lo hi (t @ rest) = legi_id_search lo hi rest"
proof (induction t)
  case Nil
  then show ?case by simp
next
  case (Cons c t)
  then have c: "c \<noteq> CHR ''L''" and t: "CHR ''L'' \<notin> set t" by auto
  from c have "legi_id_match_at lo hi (c # t @ rest) = None" by (rule legi_id_match_at_first)
  with Cons.IH [OF t] show ?case by simp
qed

lemma set_take_drop: "set xs = set (take n xs) \<union> set (drop n xs)"
  by (metis append_take_drop_id set_append)

lemma L_not_digit: "\<not> is_digit (CHR ''L'')"
  by (simp add: is_digit_def)

lemma digits_no_L: "list_all is_digit xs \<Longrightarrow> CHR ''L'' \<notin> set xs"
  using L_not_digit unfolding list_all_iff by blast

lemma timestamp_chars:
  assumes "is_timestamp_segment t"
  shows "CHR ''L'' \<notin> set t"
proof -
  have "set t = set (take 8 t) \<union> set (drop 8 t)" by (rule set_take_drop)
  moreover have "set (drop 8 t) = set (take 1 (drop 8 t)) \<union> set (drop 1 (drop 8 t))"
    by (rule set_take_drop)
  moreover have "drop 1 (drop 8 t) = drop 9 t" by simp
  moreover have "set (drop 9 t) = set (take 6 (drop 9 t)) \<union> set (drop 6 (drop 9 t))"
    by (rule set_take_drop)
  moreover have "drop 6 (drop 9 t) = drop 15 t" by simp
  ultimately have t: "set t = set (take 8 t) \<union> set (take 1 (drop 8 t))
      \<union> set (take 6 (drop 9 t)) \<union> set (drop 15 t)"
    by (simp add: Un_assoc)
  from assms have d1: "list_all is_digit (take 8 t)" and d2: "list_all is_digit (take 6 (drop 9 t))"
    and s1: "take 1 (drop 8 t) = ''-''" and s2: "drop 15 t = ''/''"
    unfolding is_timestamp_segment_def by blast+
  have "CHR ''L'' \<notin> set (take 8 t)" using d1 by (rule digits_no_L)
  moreover have "CHR ''L'' \<notin> set (take 6 (drop 9 t))" using d2 by (rule digits_no_L)
  moreover have "CHR ''L'' \<notin> set (take 1 (drop 8 t))" unfolding s1 by simp
  moreover have "CHR ''L'' \<notin> set (drop 15 t)" unfolding s2 by simp
  ultimately show ?thesis unfolding t by simp
qed

lemma strip_timestamp_segment:
  assumes "is_timestamp_segment t"
  shows "strip_timestamp (t @ rest) = rest"
proof -
  from assms have "length t = 16" unfolding is_timestamp_segment_def by blast
  then have "take 16 (t @ rest) = t" "drop 16 (t @ rest) = rest" by simp_all
  with assms show ?thesis by (simp only: strip_timestamp_def if_True)
qed

lemma doc_id_meta:
  "m_id m = Some i \<Longrightarrow> i \<noteq> [] \<Longrightarrow> doc_id sha256_hex source path_in_tar (Some m) = i"
  by (simp add: doc_id_def truthy_def)

lemma doc_id_no_meta:
  assumes "meta = None \<or> (\<exists>m. meta = Some m \<and> \<not> truthy (m_id m))"
  shows "doc_id sha256_hex source path_in_tar meta =
     (case legi_id_search 3 4 path_in_tar of
        Some legi_id \<Rightarrow> legi_id
      | None \<Rightarrow> sha256_hex (str_encode (source @ '':'' @ strip_timestamp path_in_tar)))"
  using assms by (auto simp: doc_id_def)

lemma doc_id_snapshot:
  assumes "is_timestamp_segment t1" "is_timestamp_segment t2"
  shows "doc_id sha256_hex source (t1 @ rest) meta = doc_id sha256_hex source (t2 @ rest) meta"
proof -
  have "legi_id_search 3 4 (t1 @ rest) = legi_id_search 3 4 rest"
    "legi_id_search 3 4 (t2 @ rest) = legi_id_search 3 4 rest"
    using assms by (simp_all add: legi_id_search_skip timestamp_chars)
  moreover have "strip_timestamp (t1 @ rest) = rest" "strip_timestamp (t2 @ rest) = rest"
    using assms by (simp_all add: strip_timestamp_segment)
  ultimately show ?thesis by (simp only: doc_id_def)
qed

text \<open>
  C2 (identity resolution priority). \<open>_doc_id\<close> returns (1) the metadata's \<open>id\<close> when it
  is a non-empty string; otherwise (2) the leftmost match of \<open>LEGI[A-Z]{3,4}\d{12}\<close> in the
  path, which is a structural id occurring in the path, and one is found whenever the
  path contains one; otherwise (3) the hash of \<open>source:path\<close> with a leading
  \<open>YYYYMMDD-HHMMSS/\<close> segment removed. Hence two paths that differ only in that leading
  segment get the same id.
\<close>

theorem identity_resolution_priority:
  "(meta1 = Some m \<and> m_id m = Some i1 \<and> i1 \<noteq> [] \<longrightarrow>
      doc_id sha256_hex source path1 meta1 = i1)
   \<and> ((meta = None \<or> (\<exists>m'. meta = Some m' \<and> \<not> truthy (m_id m')))
        \<and> legi_id_search 3 4 path2 = Some i2 \<longrightarrow>
      doc_id sha256_hex source path2 meta = i2 \<and> legi_id_shape 3 4 i2
      \<and> (\<exists>pre rest. path2 = pre @ i2 @ rest))
   \<and> (legi_id_shape 3 4 i3 \<longrightarrow> legi_id_search 3 4 (pre3 @ i3 @ rest3) \<noteq> None)
   \<and> ((meta = None \<or> (\<exists>m'. meta = Some m' \<and> \<not> truthy (m_id m')))
        \<and> legi_id_search 3 4 path4 = None \<longrightarrow>
      doc_id sha256_hex source path4 meta
        = sha256_hex (str_encode (source @ '':'' @ strip_timestamp path4)))
   \<and> (is_timestamp_segment t1 \<longrightarrow> strip_timestamp (t1 @ rest5) = rest5)
   \<and> (is_timestamp_segment t1 \<and> is_timestamp_segment t2 \<longrightarrow>
        doc_id sha256_hex source (t1 @ rest5) meta5 = doc_id sha256_hex source (t2 @ rest5) meta5)"
proof (intro conjI impI)
  assume "meta1 = Some m \<and> m_id m = Some i1 \<and> i1 \<noteq> []"
  then show "doc_id sha256_hex source path1 meta1 = i1" by (simp add: doc_id_meta)
next
  assume a: "(meta = None \<or> (\<exists>m'. meta = Some m' \<and> \<not> truthy (m_id m')))
        \<and> legi_id_search 3 4 path2 = Some i2"
  then show "doc_id sha256_hex source path2 meta = i2" by (simp add: doc_id_no_meta)
  from a legi_id_search_sound [of 3 4 path2 i2]
  show "legi_id_shape 3 4 i2" "\<exists>pre rest. path2 = pre @ i2 @ rest" by blast+
next
  assume "legi_id_shape 3 4 i3"
  then show "legi_id_search 3 4 (pre3 @ i3 @ rest3) \<noteq> None" by (rule legi_id_search_complete)
next
  assume "(meta = None \<or> (\<exists>m'. meta = Some m' \<and> \<not> truthy (m_id m')))
        \<and> legi_id_search 3 4 path4 = None"
  then show "doc_id sha256_hex source path4 meta
        = sha256_hex (str_encode (source @ '':'' @ strip_timestamp path4))"
    by (simp add: doc_id_no_meta)
next
  assume "is_timestamp_segment t1"
  then show "strip_timestamp (t1 @ rest5) = rest5" by (rule strip_timestamp_segment)
next
  assume "is_timestamp_segment t1 \<and> is_timestamp_segment t2"
  then show "doc_id sha256_hex source (t1 @ rest5) meta5 = doc_id sha256_hex source (t2 @ rest5) meta5"
    by (simp add: doc_id_snapshot)
qed

theorem identity_resolution_priority_witness:
  "doc_id example_hash ''LEGI'' ''20260104-202823/legi/LEGITEXT000006070721/texte.xml''
      (Some (empty_meta\<lparr>m_id := Some ''LEGIARTI000006797825''\<rparr>)) = ''LEGIARTI000006797825''
   \<and> legi_id_search 3 4 ''20260104-202823/legi/article/LEGIARTI000006797825.xml''
        = Some ''LEGIARTI000006797825''
   \<and> doc_id example_hash ''LEGI'' ''20260104-202823/legi/article/LEGIARTI000006797825.xml'' None
        = ''LEGIARTI000006797825''
   \<and> legi_id_search 3 4 ''20260104-202823/legi/misc/notice.xml'' = None
   \<and> doc_id example_hash ''LEGI'' ''20260104-202823/legi/misc/notice.xml'' None
        = example_hash ''LEGI:legi/misc/notice.xml''
   \<and> is_timestamp_segment ''20260104-202823/'' \<and> is_timestamp_segment ''20260105-101010/''
   \<and> doc_id example_hash ''LEGI'' (''20260104-202823/'' @ ''legi/misc/notice.xml'') None
        = doc_id example_hash ''LEGI'' (''20260105-101010/'' @ ''legi/misc/notice.xml'') None"
proof -
  let ?m = "empty_meta\<lparr>m_id := Some ''LEGIARTI000006797825''\<rparr>"
  have h1: "Some ?m = Some ?m \<and> m_id ?m = Some ''LEGIARTI000006797825''
      \<and> ''LEGIARTI000006797825'' \<noteq> []" by simp
  have s2: "legi_id_search 3 4 ''20260104-202823/legi/article/LEGIARTI000006797825.xml''
        = Some ''LEGIARTI000006797825''" by code_simp
  have s4: "legi_id_search 3 4 ''20260104-202823/legi/misc/notice.xml'' = None" by code_simp
  have t1: "is_timestamp_segment ''20260104-202823/''" by code_simp
  have t2: "is_timestamp_segment ''20260105-101010/''" by code_simp
  have e: "str_encode ''LEGI:legi/misc/notice.xml'' = ''LEGI:legi/misc/notice.xml''" by code_simp
  have st: "strip_timestamp ''20260104-202823/legi/misc/notice.xml'' = ''legi/misc/notice.xml''"
    by code_simp
  note inst = identity_resolution_priority [where ?meta1.0 = "Some ?m" and m = ?m
      and ?i1.0 = "''LEGIARTI000006797825''" and sha256_hex = example_hash and source = "''LEGI''"
      and ?path1.0 = "''20260104-202823/legi/LEGITEXT000006070721/texte.xml''"
      and meta = None and ?path2.0 = "''20260104-202823/legi/article/LEGIARTI000006797825.xml''"
      and ?i2.0 = "''LEGIARTI000006797825''"
      and ?i3.0 = "''LEGIARTI000006797825''" and ?pre3.0 = "''legi/''" and ?rest3.0 = "''.xml''"
      and ?path4.0 = "''20260104-202823/legi/misc/notice.xml''"
      and ?t1.0 = "''20260104-202823/''" and ?t2.0 = "''20260105-101010/''"
      and ?rest5.0 = "''legi/misc/notice.xml''" and ?meta5.0 = None]
  have n: "None = None \<or> (\<exists>m'. None = Some m' \<and> \<not> truthy (m_id m'))" by simp
  from inst [THEN conjunct1, THEN mp, OF h1]
  have c1: "doc_id example_hash ''LEGI'' ''20260104-202823/legi/LEGITEXT000006070721/texte.xml''
      (Some ?m) = ''LEGIARTI000006797825''" .
  from inst [THEN conjunct2, THEN conjunct1, THEN mp, OF conjI [OF n s2]]
  have c2: "doc_id example_hash ''LEGI'' ''20260104-202823/legi/article/LEGIARTI000006797825.xml'' None
        = ''LEGIARTI000006797825''" and sh: "legi_id_shape 3 4 ''LEGIARTI000006797825''"
    by (rule conjunct1, rule conjunct2 [THEN conjunct1])
  from inst [THEN conjunct2, THEN conjunct2, THEN conjunct1, THEN mp, OF sh]
  have c3: "legi_id_search 3 4 (''legi/'' @ ''LEGIARTI000006797825'' @ ''.xml'') \<noteq> None" .
  from inst [THEN conjunct2, THEN conjunct2, THEN conjunct2, THEN conjunct1, THEN mp, OF conjI [OF n s4]]
  have c4: "doc_id example_hash ''LEGI'' ''20260104-202823/legi/misc/notice.xml'' None
        = example_hash (str_encode (''LEGI'' @ '':'' @ strip_timestamp ''20260104-202823/legi/misc/notice.xml''))" .
  from inst [THEN conjunct2, THEN conjunct2, THEN conjunct2, THEN conjunct2, THEN conjunct2, THEN mp,
      OF conjI [OF t1 t2]]
  have c5: "doc_id example_hash ''LEGI'' (''20260104-202823/'' @ ''legi/misc/notice.xml'') None
        = doc_id example_hash ''LEGI'' (''20260105-101010/'' @ ''legi/misc/notice.xml'') None" .
  from c4 have c4': "doc_id example_hash ''LEGI'' ''20260104-202823/legi/misc/notice.xml'' None
        = example_hash ''LEGI:legi/misc/notice.xml''"
    unfolding st using e by simp
  from c1 s2 c2 s4 c4' t1 t2 c5 show ?thesis by (intro conjI)
qed

section \<open>Properties of the deletion\<close>


















lemma decode2:
  assumes "0xC2 \<le> b0" "b0 < 0xE0" "d0 < 64"
  shows "utf8_decode_replace (b0 # (0x80 + d0) # rest)
         = ((b0 - 0xC0) * 64 + d0) # utf8_decode_replace rest"
  using assms by (simp add: is_continuation_def)

lemma decode3:
  assumes "q2 < 16" "d1 < 64" "d0 < 64" "q2 = 0 \<longrightarrow> 32 \<le> d1" "q2 = 13 \<longrightarrow> d1 < 32"
  shows "utf8_decode_replace ((0xE0 + q2) # (0x80 + d1) # (0x80 + d0) # rest)
         = (q2 * 4096 + d1 * 64 + d0) # utf8_decode_replace rest"
  using assms by (auto simp: is_continuation_def)

lemma decode4:
  assumes "q3 < 5" "d2 < 64" "d1 < 64" "d0 < 64" "q3 = 0 \<longrightarrow> 16 \<le> d2" "q3 = 4 \<longrightarrow> d2 < 16"
  shows "utf8_decode_replace ((0xF0 + q3) # (0x80 + d2) # (0x80 + d1) # (0x80 + d0) # rest)
         = (q3 * 262144 + d2 * 4096 + d1 * 64 + d0) # utf8_decode_replace rest"
  using assms by (auto simp: is_continuation_def)

lemma digits64:
  fixes cp :: nat
  shows "cp div 4096 = cp div 64 div 64" "cp div 262144 = cp div 64 div 64 div 64"
proof -
  have "cp div (64 * 64) = cp div 64 div 64" by (rule div_mult2_eq)
  then show a: "cp div 4096 = cp div 64 div 64" by simp
  have "cp div (4096 * 64) = cp div 4096 div 64" by (rule div_mult2_eq)
  with a show "cp div 262144 = cp div 64 div 64 div 64" by simp
qed

lemma decode_one:
  assumes "scalar_value cp"
  shows "utf8_decode_replace (utf8_bytes cp @ rest) = cp # utf8_decode_replace rest"
proof -
  define d0 where "d0 = cp mod 64"
  define q1 where "q1 = cp div 64"
  define d1 where "d1 = q1 mod 64"
  define q2 where "q2 = q1 div 64"
  define d2 where "d2 = q2 mod 64"
  define q3 where "q3 = q2 div 64"
  have cp: "cp = q1 * 64 + d0" and d0: "d0 < 64" unfolding q1_def d0_def by simp_all
  have q1: "q1 = q2 * 64 + d1" and d1: "d1 < 64" unfolding q2_def d1_def by simp_all
  have q2: "q2 = q3 * 64 + d2" and d2: "d2 < 64" unfolding q3_def d2_def by simp_all
  from assms have v: "cp < 0x110000" "\<not> (0xD800 \<le> cp \<and> cp < 0xE000)"
    unfolding scalar_value_def by simp_all
  consider "cp < 0x80" | "0x80 \<le> cp" "cp < 0x800" | "0x800 \<le> cp" "cp < 0x10000"
    | "0x10000 \<le> cp"
    by linarith
  then show ?thesis
  proof cases
    case 1
    then show ?thesis by (simp add: utf8_bytes_def)
  next
    case 2
    have b: "utf8_bytes cp = [0xC0 + q1, 0x80 + d0]"
      using 2 by (simp add: utf8_bytes_def q1_def d0_def)
    from 2 cp d0 have r: "0xC2 \<le> 0xC0 + q1" "0xC0 + q1 < 0xE0" by linarith+
    from decode2 [OF r d0, of rest] cp show ?thesis unfolding b by simp
  next
    case 3
    have b: "utf8_bytes cp = [0xE0 + q2, 0x80 + d1, 0x80 + d0]"
      using 3 by (simp add: utf8_bytes_def digits64 q1_def q2_def d1_def d0_def)
    have e: "cp = q2 * 4096 + d1 * 64 + d0" using cp q1 by simp
    from 3 e d0 d1 have r: "q2 < 16" "q2 = 0 \<longrightarrow> 32 \<le> d1" by linarith+
    from v(2) e d0 d1 have s: "q2 = 13 \<longrightarrow> d1 < 32" by linarith
    from decode3 [OF r(1) d1 d0 r(2) s, of rest] e show ?thesis unfolding b by simp
  next
    case 4
    have b: "utf8_bytes cp = [0xF0 + q3, 0x80 + d2, 0x80 + d1, 0x80 + d0]"
      using 4 by (simp add: utf8_bytes_def digits64 q1_def q2_def q3_def d2_def d1_def d0_def)
    have e: "cp = q3 * 262144 + d2 * 4096 + d1 * 64 + d0" using cp q1 q2 by simp
    from 4 v(1) e d0 d1 d2 have r: "q3 < 5" "q3 = 0 \<longrightarrow> 16 \<le> d2" "q3 = 4 \<longrightarrow> d2 < 16"
      by linarith+
    from decode4 [OF r(1) d2 d1 d0 r(2) r(3), of rest] e show ?thesis unfolding b by simp
  qed
qed

lemma decode_encode:
  "list_all scalar_value s \<Longrightarrow> utf8_decode_replace (concat (map utf8_bytes s)) = s"
  by (induction s) (simp_all add: decode_one)

section \<open>Properties of the ingestion of an entry\<close>

lemma utf8_bytes_small: "scalar_value cp \<Longrightarrow> b \<in> set (utf8_bytes cp) \<Longrightarrow> b < 256"
proof -
  assume v: "scalar_value cp" and b: "b \<in> set (utf8_bytes cp)"
  have m: "cp mod 64 < 64" "cp div 64 mod 64 < 64" "cp div 4096 mod 64 < 64" by simp_all
  have "cp div 64 div 64 div 64 < 5"
    using v unfolding scalar_value_def by (simp add: less_mult_imp_div_less)
  then have q3: "cp div 262144 < 5" by (simp add: digits64)
  have q2: "cp < 0x10000 \<Longrightarrow> cp div 4096 < 16" by (simp add: less_mult_imp_div_less)
  have q1: "cp < 0x800 \<Longrightarrow> cp div 64 < 32" by (simp add: less_mult_imp_div_less)
  from b consider "cp < 0x80" "b = cp" | "cp < 0x800" "b = 0xC0 + cp div 64 \<or> b = 0x80 + cp mod 64"
    | "cp < 0x10000" "b = 0xE0 + cp div 4096 \<or> b = 0x80 + cp div 64 mod 64 \<or> b = 0x80 + cp mod 64"
    | "b = 0xF0 + cp div 262144 \<or> b = 0x80 + cp div 4096 mod 64
        \<or> b = 0x80 + cp div 64 mod 64 \<or> b = 0x80 + cp mod 64"
    by (auto simp: utf8_bytes_def split: if_splits)
  then show "b < 256"
  proof cases
    case 1
    then show ?thesis by simp
  next
    case 2
    with q1 m show ?thesis by linarith
  next
    case 3
    with q2 m show ?thesis by linarith
  next
    case 4
    with q3 m show ?thesis by linarith
  qed
qed

lemma bytes_of_encode:
  assumes "list_all scalar_value s"
  shows "map of_char (utf8_encode s) = concat (map utf8_bytes s)"
proof -
  have "\<forall>b \<in> set (concat (map utf8_bytes s)). b < 256"
    using assms utf8_bytes_small by (auto simp: list_all_iff)
  then have "map (\<lambda>b. (of_char (char_of b :: char) :: nat)) (concat (map utf8_bytes s))
             = concat (map utf8_bytes s)"
    by (intro map_idI) auto
  then show ?thesis by (simp add: utf8_encode_def comp_def)
qed

lemma decode_valid:
  "list_all scalar_value s \<Longrightarrow> utf8_decode_replace (map of_char (utf8_encode s)) = s"
  by (simp add: bytes_of_encode decode_encode)

lemma content_doctype_xml:
  assumes "guess_doctype p \<in> {''article'', ''texte'', ''section'', ''xml''}"
  shows "endswith (lower p) ''.xml''"
proof (rule ccontr)
  assume "\<not> endswith (lower p) ''.xml''"
  then have "guess_doctype p = ''suppression_list'' \<or> guess_doctype p = ''dat''
      \<or> guess_doctype p = ''blob''"
    by (simp add: guess_doctype_def Let_def)
  with assms show False by auto
qed

lemma content_doctype_not_suppression:
  "guess_doctype p \<in> {''article'', ''texte'', ''section'', ''xml''} \<Longrightarrow>
   guess_doctype p \<noteq> ''suppression_list''"
  by auto

lemma extract_failure:
  "env_xml env data p = Inl e \<Longrightarrow>
   extract_text_and_meta_from_xml env data p
     = ([], empty_meta\<lparr>m_parse_error := Some True, m_error := Some e\<rparr>)"
  by (simp add: extract_text_and_meta_from_xml_def)

lemma content_row_failure:
  assumes "env_xml env data p = Inl e"
  shows "content_row env source p doctype updated_at data =
     \<lparr>d_id = doc_id (env_sha256 env) source p
               (Some (empty_meta\<lparr>m_parse_error := Some True, m_error := Some e,
                  m_source := Some source\<rparr>)),
      d_source = source, d_doctype = doctype, d_path = p, d_updated_at = updated_at,
      d_sha256 = env_sha256 env data,
      d_meta = empty_meta\<lparr>m_parse_error := Some True, m_error := Some e, m_source := Some source\<rparr>,
      d_content_xml = utf8_decode_replace (map of_char data), d_content_text = []\<rparr>"
  by (simp add: content_row_def extract_failure [OF assms] Let_def)

lemma ingest_member_content:
  assumes "tm_isfile member" "tm_extractfile member = Some data"
    "guess_doctype (tm_name member) \<in> {''article'', ''texte'', ''section'', ''xml''}"
  shows "ingest_member env source updated_at batch_size st member =
     (let pending = st_pending st
            @ [content_row env source (tm_name member) (guess_doctype (tm_name member)) updated_at data]
      in if length pending \<ge> batch_size then
           (case upsert_documents (st_conn st) pending of
              Inl err \<Rightarrow> Inl err
            | Inr conn \<Rightarrow>
                Inr (st\<lparr>st_files_seen := st_files_seen st + 1, st_conn := conn,
                       st_do_inserts := st_do_inserts st + length pending, st_pending := []\<rparr>))
         else Inr (st\<lparr>st_files_seen := st_files_seen st + 1, st_pending := pending\<rparr>))"
  using assms content_doctype_xml [OF assms(3)] content_doctype_not_suppression [OF assms(3)]
  by (simp add: ingest_member_def Let_def split: sum.splits)

lemma fold_upsert_last:
  "row \<in> set (fold (\<lambda>row acc. upsert_row acc row) (rows @ [row]) documents)"
  by (simp add: upsert_row_in)

lemma ingest_member_content_accepted:
  assumes "tm_isfile member" "tm_extractfile member = Some data"
    "guess_doctype (tm_name member) \<in> {''article'', ''texte'', ''section'', ''xml''}"
    and "\<forall>row \<in> set (st_pending st). \<not> row_refused row"
    and "\<not> row_refused (content_row env source (tm_name member)
            (guess_doctype (tm_name member)) updated_at data)"
  shows "\<exists>st'. ingest_member env source updated_at batch_size st member = Inr st'
     \<and> st_files_seen st' = st_files_seen st + 1
     \<and> st_do_inserts st' + length (st_pending st')
         = st_do_inserts st + length (st_pending st) + 1
     \<and> (\<forall>row \<in> set (st_pending st'). \<not> row_refused row)
     \<and> content_row env source (tm_name member) (guess_doctype (tm_name member)) updated_at data
         \<in> set (st_pending st') \<union> set (st_conn st')"
proof -
  define row where
    "row = content_row env source (tm_name member) (guess_doctype (tm_name member)) updated_at data"
  define pending where "pending = st_pending st @ [row]"
  have acc: "\<forall>r \<in> set pending. \<not> row_refused r"
    using assms(4,5) by (auto simp: pending_def row_def)
  have up: "upsert_documents (st_conn st) pending
            = Inr (fold (\<lambda>row acc. upsert_row acc row) pending (st_conn st))"
    using acc by (rule upsert_documents_accepted)
  have mem: "row \<in> set (fold (\<lambda>row acc. upsert_row acc row) pending (st_conn st))"
    unfolding pending_def by (rule fold_upsert_last)
  have eq: "ingest_member env source updated_at batch_size st member =
     (if length pending \<ge> batch_size then
        Inr (st\<lparr>st_files_seen := st_files_seen st + 1,
               st_conn := fold (\<lambda>row acc. upsert_row acc row) pending (st_conn st),
               st_do_inserts := st_do_inserts st + length pending, st_pending := []\<rparr>)
      else Inr (st\<lparr>st_files_seen := st_files_seen st + 1, st_pending := pending\<rparr>))"
    unfolding ingest_member_content [OF assms(1-3)] Let_def
      row_def [symmetric] pending_def [symmetric] up
    by simp
  show ?thesis
  proof (cases "length pending \<ge> batch_size")
    case True
    with eq mem show ?thesis
      unfolding row_def [symmetric] by (simp add: pending_def)
  next
    case False
    with eq acc show ?thesis
      unfolding row_def [symmetric] by (simp add: pending_def)
  qed
qed

lemma is_content_iff:
  "is_content member \<longleftrightarrow>
     tm_isfile member \<and> (\<exists>data. tm_extractfile member = Some data)
     \<and> guess_doctype (tm_name member) \<in> {''article'', ''texte'', ''section'', ''xml''}"
  by (auto simp: is_content_def)

lemma ingest_member_accepted:
  assumes nr: "\<not> member_refused env source updated_at member"
    and pd: "\<forall>row \<in> set (st_pending st). \<not> row_refused row"
  shows "\<exists>st'. ingest_member env source updated_at batch_size st member = Inr st'
     \<and> st_files_seen st' = st_files_seen st + (if tm_isfile member then 1 else 0)
     \<and> st_do_inserts st' + length (st_pending st')
         = st_do_inserts st + length (st_pending st) + (if is_content member then 1 else 0)
     \<and> (\<forall>row \<in> set (st_pending st'). \<not> row_refused row)"
proof (cases "is_content member")
  case True
  then obtain data where f: "tm_isfile member" and x: "tm_extractfile member = Some data"
    and g: "guess_doctype (tm_name member) \<in> {''article'', ''texte'', ''section'', ''xml''}"
    by (auto simp: is_content_iff)
  have "\<not> row_refused (content_row env source (tm_name member)
            (guess_doctype (tm_name member)) updated_at data)"
    using nr True f x content_doctype_not_suppression [OF g] by (simp add: member_refused_def)
  from ingest_member_content_accepted [OF f x g pd this, of batch_size] True f
  show ?thesis by auto
next
  case False
  show ?thesis
  proof (cases "tm_isfile member")
    case nf: False
    with False pd show ?thesis by (simp add: ingest_member_def)
  next
    case f: True
    show ?thesis
    proof (cases "tm_extractfile member")
      case None
      with f False pd show ?thesis by (simp add: ingest_member_def Let_def)
    next
      case (Some data)
      with f False have ng:
          "guess_doctype (tm_name member) \<notin> {''article'', ''texte'', ''section'', ''xml''}"
        by (simp add: is_content_def)
      show ?thesis
      proof (cases "guess_doctype (tm_name member) = ''suppression_list''")
        case True
        with nr f Some have "\<not> delete_refused (parse_suppression_list env data) source"
          by (simp add: member_refused_def)
        with True f Some False pd show ?thesis
          by (simp add: ingest_member_def Let_def split: prod.splits)
      next
        case nsup: False
        with ng f Some False pd show ?thesis
          by (simp add: ingest_member_def Let_def)
      qed
    qed
  qed
qed

lemma ingest_members_accepted:
  assumes "\<forall>m \<in> set members. \<not> member_refused env source updated_at m"
    and "\<forall>row \<in> set (st_pending st). \<not> row_refused row"
  shows "\<exists>st'. ingest_members env source updated_at batch_size st members = Inr st'
     \<and> st_files_seen st' = st_files_seen st + length (filter tm_isfile members)
     \<and> st_do_inserts st' + length (st_pending st')
         = st_do_inserts st + length (st_pending st) + length (filter is_content members)
     \<and> (\<forall>row \<in> set (st_pending st'). \<not> row_refused row)"
  using assms
proof (induction members arbitrary: st)
  case Nil
  then show ?case by simp
next
  case (Cons m ms)
  from Cons.prems(1) have nm: "\<not> member_refused env source updated_at m"
    and nms: "\<forall>m \<in> set ms. \<not> member_refused env source updated_at m"
    by simp_all
  from ingest_member_accepted [OF nm Cons.prems(2), of batch_size]
  obtain st1 where s1: "ingest_member env source updated_at batch_size st m = Inr st1"
    and f1: "st_files_seen st1 = st_files_seen st + (if tm_isfile m then 1 else 0)"
    and i1: "st_do_inserts st1 + length (st_pending st1)
         = st_do_inserts st + length (st_pending st) + (if is_content m then 1 else 0)"
    and p1: "\<forall>row \<in> set (st_pending st1). \<not> row_refused row"
    by blast
  from Cons.IH [OF nms p1]
  obtain st' where s': "ingest_members env source updated_at batch_size st1 ms = Inr st'"
    and f': "st_files_seen st' = st_files_seen st1 + length (filter tm_isfile ms)"
    and i': "st_do_inserts st' + length (st_pending st')
         = st_do_inserts st1 + length (st_pending st1) + length (filter is_content ms)"
    and p': "\<forall>row \<in> set (st_pending st'). \<not> row_refused row"
    by blast
  have "ingest_members env source updated_at batch_size st (m # ms) = Inr st'"
    using s1 s' by simp
  moreover have "st_files_seen st' = st_files_seen st + length (filter tm_isfile (m # ms))"
    using f1 f' by simp
  moreover have "st_do_inserts st' + length (st_pending st')
         = st_do_inserts st + length (st_pending st) + length (filter is_content (m # ms))"
    using i1 i' by simp
  ultimately show ?case using p' by blast
qed

lemma ingest_archive_accepted:
  assumes "\<forall>m \<in> set members. \<not> member_refused env (env_upper env source0) updated_at m"
  shows "\<exists>conn' deletes. ingest_archive env conn source0 members updated_at batch_size
           = Inr (conn', length (filter tm_isfile members),
                  length (filter is_content members), deletes)"
proof -
  let ?st0 = "\<lparr>st_conn = conn, st_pending = [], st_files_seen = 0, st_do_inserts = 0,
               st_do_deletes = 0\<rparr>"
  have p0: "\<forall>row \<in> set (st_pending ?st0). \<not> row_refused row" by simp
  from ingest_members_accepted [OF assms p0, of batch_size]
  obtain st' where s: "ingest_members env (env_upper env source0) updated_at batch_size ?st0 members
        = Inr st'"
    and f: "st_files_seen st' = length (filter tm_isfile members)"
    and i: "st_do_inserts st' + length (st_pending st') = length (filter is_content members)"
    and p: "\<forall>row \<in> set (st_pending st'). \<not> row_refused row"
    by auto
  have up: "upsert_documents (st_conn st') (st_pending st')
            = Inr (fold (\<lambda>row acc. upsert_row acc row) (st_pending st') (st_conn st'))"
    using p by (rule upsert_documents_accepted)
  show ?thesis
  proof (cases "st_pending st' = []")
    case True
    with i have "st_do_inserts st' = length (filter is_content members)" by simp
    with True f show ?thesis
      unfolding ingest_archive_def Let_def s by simp
  next
    case False
    with f i show ?thesis
      unfolding ingest_archive_def Let_def s by (simp add: up)
  qed
qed

lemma upsert_documents_error: "upsert_documents documents rows = Inl e \<Longrightarrow> e = DataError"
proof (cases "\<exists>row \<in> set rows. row_refused row")
  case True
  assume "upsert_documents documents rows = Inl e"
  with upsert_documents_refused [OF True, of documents] show ?thesis by simp
next
  case False
  assume "upsert_documents documents rows = Inl e"
  with upsert_documents_accepted [of rows documents] False show ?thesis by simp
qed

lemma ingest_member_error:
  "ingest_member env source updated_at batch_size st member = Inl e \<Longrightarrow> e = DataError"
  by (auto simp: ingest_member_def Let_def dest: upsert_documents_error
      split: if_splits option.splits prod.splits sum.splits)

lemma ingest_member_refused:
  assumes "ingest_member env source updated_at batch_size st member = Inr st'"
    and "(\<exists>row \<in> set (st_pending st). row_refused row)
         \<or> member_refused env source updated_at member"
  shows "\<exists>row \<in> set (st_pending st'). row_refused row"
proof (cases "is_content member")
  case True
  then obtain data where f: "tm_isfile member" and x: "tm_extractfile member = Some data"
    and g: "guess_doctype (tm_name member) \<in> {''article'', ''texte'', ''section'', ''xml''}"
    by (auto simp: is_content_iff)
  define pending where "pending = st_pending st
    @ [content_row env source (tm_name member) (guess_doctype (tm_name member)) updated_at data]"
  have bad: "\<exists>row \<in> set pending. row_refused row"
    using assms(2) True f x content_doctype_not_suppression [OF g]
    by (auto simp: member_refused_def pending_def)
  then have up: "upsert_documents (st_conn st) pending = Inl DataError"
    by (rule upsert_documents_refused)
  from assms(1) have "st' = st\<lparr>st_files_seen := st_files_seen st + 1, st_pending := pending\<rparr>"
    unfolding ingest_member_content [OF f x g] Let_def pending_def [symmetric] up
    by (simp split: if_splits)
  with bad show ?thesis by simp
next
  case False
  then have "\<not> (\<exists>data. tm_isfile member \<and> tm_extractfile member = Some data
      \<and> guess_doctype (tm_name member) \<in> {''article'', ''texte'', ''section'', ''xml''})"
    by (auto simp: is_content_iff)
  with assms False show ?thesis
    by (auto simp: ingest_member_def member_refused_def Let_def
        split: if_splits option.splits prod.splits)
qed

lemma ingest_members_refused:
  assumes "(\<exists>row \<in> set (st_pending st). row_refused row)
           \<or> (\<exists>m \<in> set members. member_refused env source updated_at m)"
  shows "(\<exists>conn'. ingest_members env source updated_at batch_size st members
                     = Inl (DataError, conn'))
         \<or> (\<exists>st'. ingest_members env source updated_at batch_size st members = Inr st'
                \<and> (\<exists>row \<in> set (st_pending st'). row_refused row))"
  using assms
proof (induction members arbitrary: st)
  case Nil
  then show ?case by simp
next
  case (Cons m ms)
  show ?case
  proof (cases "ingest_member env source updated_at batch_size st m")
    case (Inl e)
    then have "e = DataError" by (rule ingest_member_error)
    with Inl show ?thesis by simp
  next
    case (Inr st1)
    have "(\<exists>row \<in> set (st_pending st1). row_refused row)
          \<or> (\<exists>m \<in> set ms. member_refused env source updated_at m)"
    proof (cases "(\<exists>row \<in> set (st_pending st). row_refused row)
         \<or> member_refused env source updated_at m")
      case True
      with ingest_member_refused [OF Inr] show ?thesis by blast
    next
      case False
      with Cons.prems show ?thesis by auto
    qed
    from Cons.IH [OF this] Inr show ?thesis by simp
  qed
qed

lemma ingest_archive_refused:
  assumes "\<exists>m \<in> set members. member_refused env (env_upper env source0) updated_at m"
  shows "\<exists>conn'. ingest_archive env conn source0 members updated_at batch_size
           = Inl (DataError, conn')"
proof -
  let ?st0 = "\<lparr>st_conn = conn, st_pending = [], st_files_seen = 0, st_do_inserts = 0,
               st_do_deletes = 0\<rparr>"
  from ingest_members_refused [of ?st0 members env "env_upper env source0" updated_at batch_size]
    assms
  consider conn' where "ingest_members env (env_upper env source0) updated_at batch_size ?st0 members
        = Inl (DataError, conn')"
    | st' where "ingest_members env (env_upper env source0) updated_at batch_size ?st0 members
        = Inr st'" "\<exists>row \<in> set (st_pending st'). row_refused row"
    by blast
  then show ?thesis
  proof cases
    case 1
    then show ?thesis by (simp add: ingest_archive_def Let_def)
  next
    case 2
    from 2(2) have ne: "st_pending st' \<noteq> []" by auto
    from 2(2) have "upsert_documents (st_conn st') (st_pending st') = Inl DataError"
      by (rule upsert_documents_refused)
    with 2(1) ne show ?thesis by (simp add: ingest_archive_def Let_def)
  qed
qed

lemma nul_byte_decoded: "0 \<in> set bs \<Longrightarrow> 0 \<in> set (utf8_decode_replace bs)"
proof (induction bs rule: length_induct)
  case (1 bs)
  have IH: "\<And>ys. length ys < length bs \<Longrightarrow> 0 \<in> set ys \<Longrightarrow> 0 \<in> set (utf8_decode_replace ys)"
    using 1(1) by blast
  from 1(2) obtain b0 rest where bs: "bs = b0 # rest" by (cases bs) auto
  have c0: "\<And>b. is_continuation b \<Longrightarrow> b \<noteq> 0" by (auto simp: is_continuation_def)
  show ?case
  proof (cases "b0 = 0")
    case True
    then show ?thesis by (simp add: bs)
  next
    case False
    with 1(2) bs have r: "0 \<in> set rest" by simp
    have A: "0 \<in> set (utf8_decode_replace rest)"
      using IH [of rest] r bs by simp
    show ?thesis
    proof (cases rest)
      case Nil
      with r show ?thesis by simp
    next
      case c1: (Cons b1 r1)
      have A1: "0 \<in> set (utf8_decode_replace (b1 # r1))" using A unfolding c1 .
      show ?thesis
      proof (cases "is_continuation b1")
        case n1: False
        show ?thesis unfolding bs c1
          apply (subst utf8_decode_replace.simps(2))
          using A1 n1 by (simp del: utf8_decode_replace.simps)
      next
        case k1: True
        from r c1 c0 [OF k1] have m1: "0 \<in> set r1" by auto
        then obtain b2 r2 where c2: "r1 = b2 # r2" by (cases r1) auto
        have A2: "0 \<in> set (utf8_decode_replace (b2 # r2))"
          using IH [of r1] m1 bs c1 unfolding c2 by simp
        show ?thesis
        proof (cases "is_continuation b2")
          case n2: False
          show ?thesis unfolding bs c1 c2
            apply (subst utf8_decode_replace.simps(2))
            using A1 A2 k1 n2 unfolding c2 by (simp del: utf8_decode_replace.simps)
        next
          case k2: True
          from m1 c2 c0 [OF k2] have m2: "0 \<in> set r2" by auto
          then obtain b3 r3 where c3: "r2 = b3 # r3" by (cases r2) auto
          have A3: "0 \<in> set (utf8_decode_replace (b3 # r3))"
            using IH [of r2] m2 bs c1 c2 unfolding c3 by simp
          show ?thesis
          proof (cases "is_continuation b3")
            case n3: False
            show ?thesis unfolding bs c1 c2 c3
              apply (subst utf8_decode_replace.simps(2))
              using A1 A2 A3 k1 k2 n3 unfolding c2 c3 by (simp del: utf8_decode_replace.simps)
          next
            case k3: True
            from m2 c3 c0 [OF k3] have m3: "0 \<in> set r3" by auto
            have A4: "0 \<in> set (utf8_decode_replace r3)"
              using IH [of r3] m3 bs c1 c2 c3 by simp
            show ?thesis unfolding bs c1 c2 c3
              apply (subst utf8_decode_replace.simps(2))
              using A1 A2 A3 A4 k1 k2 k3 unfolding c2 c3 by (simp del: utf8_decode_replace.simps)
          qed
        qed
      qed
    qed
  qed
qed

lemma nul_byte_refused:
  assumes "CHR 0x00 \<in> set data"
  shows "row_refused (content_row env source p doctype updated_at data)"
proof -
  from assms have "of_char (CHR 0x00) \<in> of_char ` set data" by (rule imageI)
  then have "(0::nat) \<in> set (map of_char data)" by simp
  then have "0 \<in> set (utf8_decode_replace (map of_char data))" by (rule nul_byte_decoded)
  then show ?thesis
    by (simp add: row_refused_def content_row_def Let_def split: prod.splits)
qed


lemma ingest_single_content:
  assumes "tm_isfile member" "tm_extractfile member = Some data"
    "guess_doctype (tm_name member) \<in> {''article'', ''texte'', ''section'', ''xml''}"
    and "\<not> row_refused (content_row env (env_upper env source0) (tm_name member)
            (guess_doctype (tm_name member)) updated_at data)"
  shows "ingest_archive env conn source0 [member] updated_at batch_size =
     Inr (upsert_row conn
            (content_row env (env_upper env source0) (tm_name member)
               (guess_doctype (tm_name member)) updated_at data), 1, 1, 0)"
  using assms(4)
  by (simp add: ingest_archive_def ingest_member_content [OF assms(1-3)] Let_def
      upsert_documents_single)

lemma nul_entry_aborts:
  "ingest_archive example_env [] ''LEGI'' [nul_member] ''20260104-202823'' 500
   = Inl (DataError, [])"
proof -
  have f: "tm_isfile nul_member" and x: "tm_extractfile nul_member = Some [CHR 0x00]"
    by (simp_all add: nul_member_def)
  have g: "guess_doctype (tm_name nul_member) \<in> {''article'', ''texte'', ''section'', ''xml''}"
    by code_simp
  have "row_refused (content_row example_env ''LEGI'' (tm_name nul_member)
          (guess_doctype (tm_name nul_member)) ''20260104-202823'' [CHR 0x00])"
    by (rule nul_byte_refused) simp
  then have "upsert_documents []
      [content_row example_env ''LEGI'' (tm_name nul_member)
          (guess_doctype (tm_name nul_member)) ''20260104-202823'' [CHR 0x00]] = Inl DataError"
    by (intro upsert_documents_refused) simp
  then show ?thesis
    by (simp add: ingest_archive_def ingest_member_content [OF f x g] Let_def example_env_def)
qed

text \<open>
  C8 as stated fails on the stored content: it is the decoded text, not the bytes. An
  entry that is the single byte \<open>0xFF\<close> fails to parse and is stored as U+FFFD, whose
  encoding is \<open>EF BF BD\<close>; the entry \<open>0xFE\<close> is stored as the same text.
\<close>

theorem raw_bytes_counterexample:
  "env_xml example_env [CHR 0xFF] ''legi/broken.xml'' = Inl ''Start tag expected''
   \<and> env_xml example_env [CHR 0xFE] ''legi/broken.xml'' = Inl ''Start tag expected''
   \<and> d_content_xml (content_row example_env ''LEGI'' ''legi/broken.xml'' ''xml''
         ''20260104-202823'' [CHR 0xFF]) = [0xFFFD]
   \<and> d_content_xml (content_row example_env ''LEGI'' ''legi/broken.xml'' ''xml''
         ''20260104-202823'' [CHR 0xFE]) = [0xFFFD]
   \<and> utf8_encode [0xFFFD] = [CHR 0xEF, CHR 0xBF, CHR 0xBD]"
  by (simp add: example_env_def example_xml_def content_row_def Let_def
      extract_text_and_meta_from_xml_def utf8_encode_def utf8_bytes_def char_of_def bit_0)

text \<open>
  C8, amended. For an entry that is read as content and whose XML fails to parse:
  extraction returns an empty text and a metadata object holding only
  \<open>parse_error = True\<close> and the error message; the row built for it carries that
  metadata with the source, the hash of the raw bytes, and as content the bytes decoded
  as UTF-8 with U+FFFD for every invalid sequence, which gives the bytes back exactly
  when they are valid UTF-8. In a run whose statements the database accepts, the entry
  raises nothing: its row is appended to the pending batch or stored with it, the loop
  goes on with the next member, the run returns with every file counted and every content
  entry upserted, and an archive of that single entry stores the row.
\<close>

theorem parse_failure_degradation:
  assumes "tm_isfile member" and "tm_extractfile member = Some data"
    and "guess_doctype (tm_name member) \<in> {''article'', ''texte'', ''section'', ''xml''}"
    and "env_xml env data (tm_name member) = Inl e"
    and "member \<in> set members"
    and "\<forall>m \<in> set members. \<not> member_refused env (env_upper env source0) updated_at m"
    and "\<forall>row \<in> set (st_pending st). \<not> row_refused row"
  shows "extract_text_and_meta_from_xml env data (tm_name member)
       = ([], empty_meta\<lparr>m_parse_error := Some True, m_error := Some e\<rparr>)
    \<and> content_row env source (tm_name member) doctype updated_at data =
       \<lparr>d_id = doc_id (env_sha256 env) source (tm_name member)
                 (Some (empty_meta\<lparr>m_parse_error := Some True, m_error := Some e,
                    m_source := Some source\<rparr>)),
        d_source = source, d_doctype = doctype, d_path = tm_name member,
        d_updated_at = updated_at, d_sha256 = env_sha256 env data,
        d_meta = empty_meta\<lparr>m_parse_error := Some True, m_error := Some e,
                   m_source := Some source\<rparr>,
        d_content_xml = utf8_decode_replace (map of_char data), d_content_text = []\<rparr>
    \<and> (\<exists>st'. ingest_member env (env_upper env source0) updated_at batch_size st member = Inr st'
          \<and> ingest_members env (env_upper env source0) updated_at batch_size st (member # rest)
              = ingest_members env (env_upper env source0) updated_at batch_size st' rest
          \<and> st_files_seen st' = st_files_seen st + 1
          \<and> st_do_inserts st' + length (st_pending st')
              = st_do_inserts st + length (st_pending st) + 1
          \<and> content_row env (env_upper env source0) (tm_name member)
               (guess_doctype (tm_name member)) updated_at data
              \<in> set (st_pending st') \<union> set (st_conn st'))
    \<and> is_content member
    \<and> (\<exists>conn' deletes. ingest_archive env conn source0 members updated_at batch_size
           = Inr (conn', length (filter tm_isfile members),
                  length (filter is_content members), deletes))
    \<and> ingest_archive env conn source0 [member] updated_at batch_size =
       Inr (upsert_row conn
              (content_row env (env_upper env source0) (tm_name member)
                 (guess_doctype (tm_name member)) updated_at data), 1, 1, 0)
    \<and> (list_all scalar_value s \<and> data = utf8_encode s \<longrightarrow>
         d_content_xml (content_row env source (tm_name member) doctype updated_at data) = s
         \<and> utf8_encode (d_content_xml
              (content_row env source (tm_name member) doctype updated_at data)) = data)"
proof -
  have c: "is_content member"
    using assms(1-3) by (simp add: is_content_def)
  have "\<not> member_refused env (env_upper env source0) updated_at member"
    using assms(5,6) by blast
  then have nr: "\<not> row_refused (content_row env (env_upper env source0) (tm_name member)
            (guess_doctype (tm_name member)) updated_at data)"
    using c assms(1,2) content_doctype_not_suppression [OF assms(3)]
    by (simp add: member_refused_def)
  from ingest_member_content_accepted [OF assms(1-3) assms(7) nr, of batch_size]
  obtain st' where s: "ingest_member env (env_upper env source0) updated_at batch_size st member
        = Inr st'"
    and f: "st_files_seen st' = st_files_seen st + 1"
    and i: "st_do_inserts st' + length (st_pending st')
              = st_do_inserts st + length (st_pending st) + 1"
    and m: "content_row env (env_upper env source0) (tm_name member)
               (guess_doctype (tm_name member)) updated_at data
              \<in> set (st_pending st') \<union> set (st_conn st')"
    by blast
  have n: "ingest_members env (env_upper env source0) updated_at batch_size st (member # rest)
              = ingest_members env (env_upper env source0) updated_at batch_size st' rest"
    using s by simp
  have step: "\<exists>st'. ingest_member env (env_upper env source0) updated_at batch_size st member
            = Inr st'
          \<and> ingest_members env (env_upper env source0) updated_at batch_size st (member # rest)
              = ingest_members env (env_upper env source0) updated_at batch_size st' rest
          \<and> st_files_seen st' = st_files_seen st + 1
          \<and> st_do_inserts st' + length (st_pending st')
              = st_do_inserts st + length (st_pending st) + 1
          \<and> content_row env (env_upper env source0) (tm_name member)
               (guess_doctype (tm_name member)) updated_at data
              \<in> set (st_pending st') \<union> set (st_conn st')"
    using s n f i m by (intro exI [of _ st'] conjI)
  have cr: "d_content_xml (content_row env source (tm_name member) doctype updated_at data)
           = utf8_decode_replace (map of_char data)"
    by (simp add: content_row_def Let_def split: prod.splits)
  have rt: "list_all scalar_value s \<and> data = utf8_encode s \<longrightarrow>
         d_content_xml (content_row env source (tm_name member) doctype updated_at data) = s
         \<and> utf8_encode (d_content_xml
              (content_row env source (tm_name member) doctype updated_at data)) = data"
    unfolding cr by (auto simp: decode_valid)
  show ?thesis
    using extract_failure [OF assms(4)] content_row_failure [OF assms(4)] step c
      ingest_archive_accepted [OF assms(6)] ingest_single_content [OF assms(1-3) nr] rt
    by (intro conjI)
qed

theorem parse_failure_degradation_witness:
  "tm_isfile broken_member \<and> tm_extractfile broken_member = Some ''not xml''
   \<and> guess_doctype (tm_name broken_member) = ''article''
   \<and> env_xml example_env ''not xml'' (tm_name broken_member) = Inl ''Start tag expected''
   \<and> \<not> member_refused example_env ''LEGI'' ''20260104-202823'' broken_member
   \<and> \<not> member_refused example_env ''LEGI'' ''20260104-202823'' sound_member
   \<and> list_all scalar_value [110, 111, 116, 32, 120, 109, 108]
   \<and> ''not xml'' = utf8_encode [110, 111, 116, 32, 120, 109, 108]
   \<and> ingest_archive example_env [] ''LEGI'' [broken_member, sound_member] ''20260104-202823'' 500 =
       Inr ([\<lparr>d_id = ''LEGIARTI000006797825'', d_source = ''LEGI'', d_doctype = ''article'',
           d_path = ''20260104-202823/legi/article/LEGIARTI000006797825.xml'',
           d_updated_at = ''20260104-202823'', d_sha256 = example_hash ''not xml'',
           d_meta = empty_meta\<lparr>m_parse_error := Some True,
                      m_error := Some ''Start tag expected'', m_source := Some ''LEGI''\<rparr>,
           d_content_xml = [110, 111, 116, 32, 120, 109, 108], d_content_text = []\<rparr>,
          \<lparr>d_id = ''LEGIARTI000006797827'', d_source = ''LEGI'', d_doctype = ''article'',
           d_path = ''20260104-202823/legi/article/LEGIARTI000006797827.xml'',
           d_updated_at = ''20260104-202823'', d_sha256 = example_hash ''<ARTICLE/>'',
           d_meta = empty_meta\<lparr>m_root_tag := Some ''ARTICLE'', m_source := Some ''LEGI''\<rparr>,
           d_content_xml = [60, 65, 82, 84, 73, 67, 76, 69, 47, 62],
           d_content_text = [60, 65, 82, 84, 73, 67, 76, 69, 47, 62]\<rparr>],
        2, 2, 0)"
proof -
  let ?ts = "''20260104-202823''"
  let ?row1 = "\<lparr>d_id = ''LEGIARTI000006797825'', d_source = ''LEGI'', d_doctype = ''article'',
           d_path = ''20260104-202823/legi/article/LEGIARTI000006797825.xml'',
           d_updated_at = ''20260104-202823'', d_sha256 = example_hash ''not xml'',
           d_meta = empty_meta\<lparr>m_parse_error := Some True,
                      m_error := Some ''Start tag expected'', m_source := Some ''LEGI''\<rparr>,
           d_content_xml = [110, 111, 116, 32, 120, 109, 108], d_content_text = []\<rparr>"
  let ?row2 = "\<lparr>d_id = ''LEGIARTI000006797827'', d_source = ''LEGI'', d_doctype = ''article'',
           d_path = ''20260104-202823/legi/article/LEGIARTI000006797827.xml'',
           d_updated_at = ''20260104-202823'', d_sha256 = example_hash ''<ARTICLE/>'',
           d_meta = empty_meta\<lparr>m_root_tag := Some ''ARTICLE'', m_source := Some ''LEGI''\<rparr>,
           d_content_xml = [60, 65, 82, 84, 73, 67, 76, 69, 47, 62],
           d_content_text = [60, 65, 82, 84, 73, 67, 76, 69, 47, 62]\<rparr>"
  let ?st0 = "\<lparr>st_conn = [], st_pending = [], st_files_seen = 0, st_do_inserts = 0,
               st_do_deletes = 0\<rparr>"
  have up: "env_upper example_env ''LEGI'' = ''LEGI''" by (simp add: example_env_def)
  have f: "tm_isfile broken_member" by (simp add: broken_member_def)
  have x: "tm_extractfile broken_member = Some ''not xml''" by (simp add: broken_member_def)
  have g: "guess_doctype (tm_name broken_member) = ''article''" by code_simp
  then have g': "guess_doctype (tm_name broken_member) \<in> {''article'', ''texte'', ''section'', ''xml''}"
    by simp
  have f2: "tm_isfile sound_member" by (simp add: sound_member_def)
  have x2: "tm_extractfile sound_member = Some ''<ARTICLE/>''" by (simp add: sound_member_def)
  have g2: "guess_doctype (tm_name sound_member) = ''article''" by code_simp
  then have g2': "guess_doctype (tm_name sound_member) \<in> {''article'', ''texte'', ''section'', ''xml''}"
    by simp
  have p: "env_xml example_env ''not xml'' (tm_name broken_member) = Inl ''Start tag expected''"
    by (simp add: example_env_def example_xml_def)
  have v: "list_all scalar_value [110, 111, 116, 32, 120, 109, 108]"
    by (simp add: scalar_value_def)
  have u: "''not xml'' = utf8_encode [110, 111, 116, 32, 120, 109, 108]"
    by (simp add: utf8_encode_def utf8_bytes_def char_of_def bit_0)
  have i: "doc_id example_hash ''LEGI'' ''20260104-202823/legi/article/LEGIARTI000006797825.xml''
      (Some (empty_meta\<lparr>m_parse_error := Some True, m_error := Some ''Start tag expected'',
               m_source := Some ''LEGI''\<rparr>)) = ''LEGIARTI000006797825''"
    by code_simp
  have i2: "doc_id example_hash ''LEGI'' ''20260104-202823/legi/article/LEGIARTI000006797827.xml''
      (Some (empty_meta\<lparr>m_root_tag := Some ''ARTICLE'', m_source := Some ''LEGI''\<rparr>))
      = ''LEGIARTI000006797827''"
    by code_simp
  have d: "utf8_decode_replace (map of_char ''not xml'') = [110, 111, 116, 32, 120, 109, 108]"
    by simp
  have d2: "utf8_decode_replace (map of_char ''<ARTICLE/>'') = [60, 65, 82, 84, 73, 67, 76, 69, 47, 62]"
    by simp
  have n: "tm_name broken_member = ''20260104-202823/legi/article/LEGIARTI000006797825.xml''"
    by (simp add: broken_member_def)
  have n2: "tm_name sound_member = ''20260104-202823/legi/article/LEGIARTI000006797827.xml''"
    by (simp add: sound_member_def)
  have r: "content_row example_env ''LEGI'' (tm_name broken_member) ''article'' ?ts ''not xml''
      = ?row1"
    using content_row_failure [OF p, of "''LEGI''" "''article''" ?ts] i d
    by (simp add: n example_env_def)
  have r2: "content_row example_env ''LEGI'' (tm_name sound_member) ''article'' ?ts ''<ARTICLE/>''
      = ?row2"
    using i2 d2
    by (simp add: n2 content_row_def extract_text_and_meta_from_xml_def example_env_def
        example_xml_def Let_def)
  have a1: "\<not> row_refused ?row1"
    by (simp add: row_refused_def has_nul_def meta_has_nul_def pyval_has_nul_def
        refs_have_nul_def the_list_def empty_meta_def example_hash_def)
  have a2: "\<not> row_refused ?row2"
    by (simp add: row_refused_def has_nul_def meta_has_nul_def pyval_has_nul_def
        refs_have_nul_def the_list_def empty_meta_def example_hash_def)
  have m1: "\<not> member_refused example_env ''LEGI'' ?ts broken_member"
    using a1 by (simp add: member_refused_def x g r)
  have m2: "\<not> member_refused example_env ''LEGI'' ?ts sound_member"
    using a2 by (simp add: member_refused_def x2 g2 r2)
  have all: "\<forall>m \<in> set [broken_member, sound_member].
      \<not> member_refused example_env (env_upper example_env ''LEGI'') ?ts m"
    using m1 m2 by (simp add: up)
  have s1: "ingest_member example_env ''LEGI'' ?ts 500 ?st0 broken_member
      = Inr (?st0\<lparr>st_files_seen := 1, st_pending := [?row1]\<rparr>)"
    by (simp add: ingest_member_content [OF f x g'] g r Let_def)
  have s2: "ingest_member example_env ''LEGI'' ?ts 500
        (?st0\<lparr>st_files_seen := 1, st_pending := [?row1]\<rparr>) sound_member
      = Inr (?st0\<lparr>st_files_seen := 2, st_pending := [?row1, ?row2]\<rparr>)"
    by (simp add: ingest_member_content [OF f2 x2 g2'] g2 r2 Let_def)
  have fl: "upsert_documents [] [?row1, ?row2] = Inr [?row1, ?row2]"
    using a1 a2 by (simp add: upsert_documents_pair upsert_row_def)
  have a: "ingest_archive example_env [] ''LEGI'' [broken_member, sound_member] ?ts 500
      = Inr ([?row1, ?row2], 2, 2, 0)"
    unfolding ingest_archive_def Let_def up ingest_members.simps s1 sum.case s2
    by (simp add: fl)
  have p0: "\<forall>row \<in> set (st_pending ?st0). \<not> row_refused row" by simp
  have mem: "broken_member \<in> set [broken_member, sound_member]" by simp
  from parse_failure_degradation [OF f x g' p mem all p0] f x g p m1 m2 v u a
  show ?thesis by (intro conjI)
qed

end
